theory Spec2Isabelle
  imports Main "HOL-Library.Word"
begin

unbundle bit_operations_syntax

section \<open>Common data\<close>

text \<open>
  The exceptions the modelled functions raise. A raise is the value \<open>Inl e\<close>; a normal
  return is \<open>Inr\<close> of the returned value together with the updated object state.
  \<open>ReadError\<close> is the bitstring library's error for a read past the end of a stream.
\<close>

datatype error =
  IndexError | ValueError | TypeError | OverflowError | AssertionError | ReadError
  | NotImplementedError

type_synonym byte = "8 word"

text \<open>A Python \<open>str\<close> built by \<open>chr\<close> from 16-bit code units: the list of its code points.\<close>

type_synonym pystr = "int list"

section \<open>buffer.py\<close>

subsection \<open>memoryview\<close>

text \<open>
  A \<open>memoryview\<close> is a window on an underlying bytes object: slicing a view yields another
  window on the same object, nothing is copied. \<open>mv_obj\<close> is the underlying object,
  \<open>mv_start\<close> the index of the window's first byte in it and \<open>mv_len\<close> what \<open>len\<close> returns.
  A length parameter named \<open>length\<close> in the source is \<open>len\<close> here.
  Positions and lengths are natural numbers: every index the code forms is a cursor that
  starts at 0 and is only advanced by unsigned amounts.
\<close>

record memoryview =
  mv_obj :: "byte list"
  mv_start :: nat
  mv_len :: nat

definition mv_valid :: "memoryview \<Rightarrow> bool" where
  "mv_valid v \<longleftrightarrow> mv_start v + mv_len v \<le> length (mv_obj v)"

definition mv_of_bytes :: "byte list \<Rightarrow> memoryview" where
  "mv_of_bytes bs = \<lparr>mv_obj = bs, mv_start = 0, mv_len = length bs\<rparr>"

definition mv_tobytes :: "memoryview \<Rightarrow> byte list" where
  "mv_tobytes v = take (mv_len v) (drop (mv_start v) (mv_obj v))"

text \<open>\<open>v[i]\<close> for \<open>i \<ge> 0\<close>: IndexError at or past the end.\<close>

definition mv_getitem :: "memoryview \<Rightarrow> nat \<Rightarrow> error + byte" where
  "mv_getitem v i =
     (if i < mv_len v then Inr (mv_obj v ! (mv_start v + i)) else Inl IndexError)"

text \<open>\<open>v[a:b]\<close> for \<open>a, b \<ge> 0\<close>: both bounds are clamped to \<open>len(v)\<close>, never an error.\<close>

definition mv_slice :: "memoryview \<Rightarrow> nat \<Rightarrow> nat \<Rightarrow> memoryview" where
  "mv_slice v a b =
     (let lo = min a (mv_len v); hi = min b (mv_len v)
      in v\<lparr>mv_start := mv_start v + lo, mv_len := hi - lo\<rparr>)"

text \<open>\<open>v[a:]\<close>.\<close>

definition mv_slice_from :: "memoryview \<Rightarrow> nat \<Rightarrow> memoryview" where
  "mv_slice_from v a = mv_slice v a (mv_len v)"

subsection \<open>Buffer\<close>

record Buffer =
  mv :: memoryview
  root :: memoryview
  abs_offset :: nat
  pos :: nat

text \<open>\<open>Buffer.__getitem__\<close> with a slice \<open>start:stop\<close> of step 1 (\<open>None\<close> for an absent bound).\<close>

definition getitem_slice :: "Buffer \<Rightarrow> nat option \<Rightarrow> nat option \<Rightarrow> Buffer" where
  "getitem_slice b start stop =
     \<lparr>mv = mv_slice (mv b) (case start of None \<Rightarrow> 0 | Some a \<Rightarrow> a)
                     (case stop of None \<Rightarrow> mv_len (mv b) | Some z \<Rightarrow> z),
      root = root b,
      abs_offset = abs_offset b + (case start of None \<Rightarrow> 0 | Some a \<Rightarrow> a),
      pos = 0\<rparr>"

definition read :: "Buffer \<Rightarrow> error + (int \<times> Buffer)" where
  "read b =
     (case mv_getitem (mv b) (pos b) of
        Inl e \<Rightarrow> Inl e
      | Inr data \<Rightarrow> Inr (uint data, b\<lparr>pos := pos b + 1\<rparr>))"

definition read_bytes :: "nat \<Rightarrow> Buffer \<Rightarrow> memoryview \<times> Buffer" where
  "read_bytes len b =
     (mv_slice (mv b) (pos b) (pos b + len), b\<lparr>pos := pos b + len\<rparr>)"

text \<open>\<open>int.from_bytes(bs, 'little', signed=signed)\<close>; the empty sequence decodes to 0.\<close>

fun from_bytes_little :: "byte list \<Rightarrow> nat" where
  "from_bytes_little [] = 0"
| "from_bytes_little (x # xs) = unat x + 256 * from_bytes_little xs"

definition int_from_bytes :: "byte list \<Rightarrow> bool \<Rightarrow> int" where
  "int_from_bytes bs is_signed =
     (let u = int (from_bytes_little bs); n = length bs
      in if is_signed \<and> 0 < n \<and> 2 ^ (8 * n - 1) \<le> u then u - 2 ^ (8 * n) else u)"

definition read_integer :: "nat \<Rightarrow> bool \<Rightarrow> Buffer \<Rightarrow> int \<times> Buffer" where
  "read_integer len is_signed b =
     (let (data, b') = read_bytes len b in (int_from_bytes (mv_tobytes data) is_signed, b'))"

definition read_ushort :: "Buffer \<Rightarrow> int \<times> Buffer" where
  "read_ushort b = read_integer 2 False b"

definition read_ulong :: "Buffer \<Rightarrow> int \<times> Buffer" where
  "read_ulong b = read_integer 4 False b"

definition skip :: "nat \<Rightarrow> Buffer \<Rightarrow> Buffer" where
  "skip count b = b\<lparr>pos := pos b + count\<rparr>"

text \<open>The generator \<open>chr(self.read_ushort()) for _ in range(length)\<close> of \<open>read_string\<close>.\<close>

fun read_ushorts :: "nat \<Rightarrow> Buffer \<Rightarrow> pystr \<times> Buffer" where
  "read_ushorts 0 b = ([], b)"
| "read_ushorts (Suc n) b =
     (let (c, b1) = read_ushort b; (cs, b2) = read_ushorts n b1 in (c # cs, b2))"

definition read_string :: "Buffer \<Rightarrow> pystr \<times> Buffer" where
  "read_string b =
     (let (len, b1) = read_ulong b;
          (string, b2) = read_ushorts (nat len) b1
      in (string, if 0 < len then skip 2 b2 else b2))"

text \<open>
  An element reader, with what \<open>inspect.getfullargspec\<close> finds out about it: whether it
  has a parameter named \<open>length\<close>.
\<close>

datatype 'a elem_reader =
    Reader "Buffer \<Rightarrow> error + ('a \<times> Buffer)"
  | ReaderWithLength "Buffer \<Rightarrow> int \<Rightarrow> error + ('a \<times> Buffer)"

text \<open>The list comprehension \<open>[elem_reader(self) for _ in range(length)]\<close>.\<close>

fun read_elems :: "(Buffer \<Rightarrow> error + ('a \<times> Buffer)) \<Rightarrow> nat \<Rightarrow> Buffer \<Rightarrow> error + ('a list \<times> Buffer)" where
  "read_elems f 0 b = Inr ([], b)"
| "read_elems f (Suc n) b =
     (case f b of
        Inl e \<Rightarrow> Inl e
      | Inr (x, b1) \<Rightarrow>
          (case read_elems f n b1 of
             Inl e \<Rightarrow> Inl e
           | Inr (xs, b2) \<Rightarrow> Inr (x # xs, b2)))"

text \<open>\<open>Buffer._read_list\<close>.\<close>

definition read_list_inner :: "'a elem_reader \<Rightarrow> int \<Rightarrow> Buffer \<Rightarrow> error + ('a list \<times> Buffer)" where
  "read_list_inner elem_reader len b =
     (if 65536 \<le> len then Inl ValueError
      else (case elem_reader of
              ReaderWithLength f \<Rightarrow> read_elems (\<lambda>b'. f b' len) (nat len) b
            | Reader f \<Rightarrow> read_elems f (nat len) b))"

datatype count_type = CT_byte | CT_ushort | CT_ulong

text \<open>The \<open>match count_type\<close> statement of \<open>read_list\<close>, which reads the length field.\<close>

definition read_count :: "count_type \<Rightarrow> Buffer \<Rightarrow> error + (int \<times> Buffer)" where
  "read_count ct b =
     (case ct of
        CT_byte \<Rightarrow> read b
      | CT_ushort \<Rightarrow> Inr (read_ushort b)
      | CT_ulong \<Rightarrow> Inr (read_ulong b))"

definition read_list :: "'a elem_reader \<Rightarrow> count_type \<Rightarrow> int option \<Rightarrow> Buffer \<Rightarrow> error + ('a list \<times> Buffer)" where
  "read_list elem_reader ct limit b =
     (case read_count ct b of
        Inl e \<Rightarrow> Inl e
      | Inr (len, b1) \<Rightarrow>
          read_list_inner elem_reader
            (case limit of None \<Rightarrow> len | Some l \<Rightarrow> min l len) b1)"

definition locator :: "bool \<Rightarrow> Buffer \<Rightarrow> error + (Buffer \<times> Buffer)" where
  "locator sized b =
     (let (address, b1) = read_ulong b;
          (sz, b2) = read_ulong b1
      in if int (mv_len (root b2)) < address + sz then Inl IndexError
         else Inr (if sized
                   then \<lparr>mv = mv_slice (root b2) (nat address) (nat (address + sz)),
                         root = root b2, abs_offset = nat address, pos = 0\<rparr>
                   else \<lparr>mv = mv_slice_from (root b2) (nat address),
                         root = root b2, abs_offset = nat address, pos = 0\<rparr>,
                   b2))"

section \<open>_image_decompression.py\<close>

subsection \<open>The bit stream\<close>

text \<open>
  A \<open>BitStream\<close> is modelled by the bits not yet read, the next bit first, so that
  \<open>stream.pos < len(stream)\<close> is \<open>s \<noteq> []\<close>. Reading past the end raises \<open>ReadError\<close>.
\<close>

type_synonym bitstream = "bool list"

text \<open>\<open>read('bool')\<close> and \<open>read('uint:1')\<close>.\<close>

definition read_bit :: "bitstream \<Rightarrow> error + (bool \<times> bitstream)" where
  "read_bit s = (case s of [] \<Rightarrow> Inl ReadError | b # s' \<Rightarrow> Inr (b, s'))"

text \<open>The loop of \<open>read_rev\<close>: \<open>n\<close> iterations remain, \<open>offset\<close> is the loop variable.\<close>

fun read_rev_loop :: "nat \<Rightarrow> nat \<Rightarrow> nat \<Rightarrow> bitstream \<Rightarrow> error + (nat \<times> bitstream)" where
  "read_rev_loop 0 offset v s = Inr (v, s)"
| "read_rev_loop (Suc n) offset v s =
     (case read_bit s of
        Inl e \<Rightarrow> Inl e
      | Inr (b, s') \<Rightarrow> read_rev_loop n (offset + 1) (v OR push_bit offset (of_bool b)) s')"

definition read_rev :: "nat \<Rightarrow> bitstream \<Rightarrow> error + (nat \<times> bitstream)" where
  "read_rev count s = read_rev_loop count 0 0 s"

text \<open>The loop of \<open>count_consecutive_ones\<close>: \<open>n\<close> iterations remain.\<close>

fun count_ones_loop :: "nat \<Rightarrow> nat \<Rightarrow> bitstream \<Rightarrow> error + (nat \<times> bitstream)" where
  "count_ones_loop 0 count s = Inr (count, s)"
| "count_ones_loop (Suc n) count s =
     (case read_bit s of
        Inl e \<Rightarrow> Inl e
      | Inr (b, s') \<Rightarrow> if b then count_ones_loop n (count + 1) s' else Inr (count, s'))"

definition count_consecutive_ones :: "nat \<Rightarrow> bitstream \<Rightarrow> error + (nat \<times> bitstream)" where
  "count_consecutive_ones limit s = count_ones_loop limit 0 s"

definition VALUE_BIT_COUNT :: "nat list" where
  "VALUE_BIT_COUNT = [6, 9, 12, 20]"

definition OFFSET_TO_ADD :: "nat list" where
  "OFFSET_TO_ADD = [1, 65, 577, 4673]"

text \<open>
  \<open>_reverse_bits\<close> on a byte. Python shifts an unbounded integer, but every left shift is
  masked to the low eight bits at once, so the 8-bit shift gives the same value.
\<close>

definition reverse_bits :: "byte \<Rightarrow> byte" where
  "reverse_bits b =
     (let b1 = (drop_bit 4 b AND 0x0F) OR (push_bit 4 b AND 0xF0);
          b2 = (drop_bit 2 b1 AND 0x33) OR (push_bit 2 b1 AND 0xCC);
          b3 = (drop_bit 1 b2 AND 0x55) OR (push_bit 1 b2 AND 0xAA)
      in b3)"

text \<open>The bits of a byte as a \<open>BitStream\<close> holds them: most significant bit first.\<close>

definition bits_of_byte :: "byte \<Rightarrow> bitstream" where
  "bits_of_byte b = map (bit b) [7, 6, 5, 4, 3, 2, 1, 0]"

subsection \<open>numpy arrays of uint8\<close>

text \<open>
  \<open>a[i]\<close> on a one-dimensional array: a negative index counts from the end, an index
  outside \<open>[-len(a), len(a))\<close> raises IndexError.
\<close>

definition np_index :: "nat \<Rightarrow> int \<Rightarrow> error + nat" where
  "np_index n i =
     (let j = (if i < 0 then i + int n else i)
      in if 0 \<le> j \<and> j < int n then Inr (nat j) else Inl IndexError)"

definition np_getitem :: "'a list \<Rightarrow> int \<Rightarrow> error + 'a" where
  "np_getitem a i = (case np_index (length a) i of Inl e \<Rightarrow> Inl e | Inr j \<Rightarrow> Inr (a ! j))"

definition np_setitem :: "'a list \<Rightarrow> int \<Rightarrow> 'a \<Rightarrow> error + 'a list" where
  "np_setitem a i x = (case np_index (length a) i of Inl e \<Rightarrow> Inl e | Inr j \<Rightarrow> Inr (a[j := x]))"

text \<open>\<open>a.reshape((h, w))\<close>, as the list of its rows: ValueError unless \<open>len(a) = h * w\<close>.\<close>

definition reshape :: "'a list \<Rightarrow> nat \<Rightarrow> nat \<Rightarrow> error + 'a list list" where
  "reshape a h w =
     (if length a = h * w then Inr (map (\<lambda>r. take w (drop (r * w) a)) [0..<h])
      else Inl ValueError)"

subsection \<open>decompress\<close>

text \<open>
  The copy loop \<open>for i in range(bytes_to_be_decoded): out[out_pos + i] = out[source_idx + i]\<close>:
  \<open>n\<close> iterations remain and \<open>i\<close> is the loop variable.
\<close>

fun copy_loop :: "nat \<Rightarrow> nat \<Rightarrow> nat \<Rightarrow> int \<Rightarrow> byte list \<Rightarrow> error + byte list" where
  "copy_loop 0 i out_pos source_idx out = Inr out"
| "copy_loop (Suc n) i out_pos source_idx out =
     (case np_getitem out (source_idx + int i) of
        Inl e \<Rightarrow> Inl e
      | Inr x \<Rightarrow>
          (case np_setitem out (int (out_pos + i)) x of
             Inl e \<Rightarrow> Inl e
           | Inr out' \<Rightarrow> copy_loop n (i + 1) out_pos source_idx out'))"

text \<open>The local variables of \<open>decompress\<close> that the loop changes.\<close>

record decoder =
  stream :: bitstream
  out :: "byte list"
  out_pos :: nat
  total_decoded_count :: nat

text \<open>
  One iteration of the \<open>while\<close> loop of \<open>decompress\<close>: \<open>Break\<close> is the \<open>break\<close> at the
  end-of-stream marker, \<open>Continue\<close> the end of the loop body. The byte stored by the
  literal branch is below 256, since \<open>read_rev(8)\<close> assembles eight bits.
\<close>

datatype 'a step = Continue 'a | Break 'a

definition decode_step :: "decoder \<Rightarrow> error + decoder step" where
  "decode_step d =
     (case read_bit (stream d) of
        Inl e \<Rightarrow> Inl e
      | Inr (flag, s1) \<Rightarrow>
          if \<not> flag then
            (case read_rev 8 s1 of
               Inl e \<Rightarrow> Inl e
             | Inr (byte, s2) \<Rightarrow>
                 (case np_setitem (out d) (int (out_pos d)) (of_nat byte) of
                    Inl e \<Rightarrow> Inl e
                  | Inr out' \<Rightarrow>
                      Inr (Continue \<lparr>stream = s2, out = out', out_pos = out_pos d + 1,
                                      total_decoded_count = total_decoded_count d + 1\<rparr>)))
          else
            (case count_consecutive_ones 3 s1 of
               Inl e \<Rightarrow> Inl e
             | Inr (seq_bits_1, s2) \<Rightarrow>
                 (let val_bit_count = VALUE_BIT_COUNT ! seq_bits_1 in
                  case read_rev val_bit_count s2 of
                    Inl e \<Rightarrow> Inl e
                  | Inr (offset, s3) \<Rightarrow>
                      if val_bit_count = 20 \<and> offset = 0x000FFFFF then Inr (Break (d\<lparr>stream := s3\<rparr>))
                      else
                        (let bytes_to_be_decoded = (if val_bit_count = 20 then 2 + 1 else 2);
                             offset = offset + OFFSET_TO_ADD ! seq_bits_1
                         in case count_consecutive_ones 12 s3 of
                              Inl e \<Rightarrow> Inl e
                            | Inr (seq_bits_2, s4) \<Rightarrow>
                                if seq_bits_2 = 12 then Inl AssertionError
                                else
                                  (let add1 = push_bit seq_bits_2 1 - 1 in
                                   case read_rev seq_bits_2 s4 of
                                     Inl e \<Rightarrow> Inl e
                                   | Inr (add2, s5) \<Rightarrow>
                                       (let bytes_to_be_decoded = bytes_to_be_decoded + (add1 + add2);
                                            source_idx = int (total_decoded_count d) - int offset;
                                            total = total_decoded_count d + bytes_to_be_decoded
                                        in case copy_loop bytes_to_be_decoded 0 (out_pos d) source_idx (out d) of
                                             Inl e \<Rightarrow> Inl e
                                           | Inr out' \<Rightarrow>
                                               Inr (Continue \<lparr>stream = s5, out = out',
                                                      out_pos = out_pos d + bytes_to_be_decoded,
                                                      total_decoded_count = total\<rparr>)))))))"

lemma read_bit_shorter: "read_bit s = Inr (b, s') \<Longrightarrow> length s' < length s"
  by (auto simp: read_bit_def split: list.splits)

lemma read_rev_loop_shorter: "read_rev_loop n k v s = Inr (r, s') \<Longrightarrow> length s' \<le> length s"
proof (induction n arbitrary: k v s)
  case 0
  then show ?case by simp
next
  case (Suc n)
  then show ?case
    by (fastforce split: sum.splits dest: read_bit_shorter)
qed

lemma count_ones_loop_shorter: "count_ones_loop n c s = Inr (r, s') \<Longrightarrow> length s' \<le> length s"
proof (induction n arbitrary: c s)
  case 0
  then show ?case by simp
next
  case (Suc n)
  then show ?case
    by (fastforce split: sum.splits if_splits dest: read_bit_shorter)
qed

lemma decode_step_shorter:
  assumes "decode_step d = Inr (Continue d')"
  shows "length (stream d') < length (stream d)"
proof -
  obtain flag s1 where rb: "read_bit (stream d) = Inr (flag, s1)"
    using assms by (auto simp: decode_step_def split: sum.splits)
  have s1: "length s1 < length (stream d)"
    using rb by (rule read_bit_shorter)
  have "length (stream d') \<le> length s1"
    using assms rb
    by (auto simp: decode_step_def read_rev_def count_consecutive_ones_def Let_def
             split: sum.splits if_splits
             dest!: read_rev_loop_shorter count_ones_loop_shorter)
  with s1 show ?thesis by simp
qed

text \<open>The \<open>while\<close> loop of \<open>decompress\<close>; it returns the final state of its variables.\<close>

function decode_loop :: "decoder \<Rightarrow> error + decoder" where
  "decode_loop d =
     (if stream d = [] then Inr d
      else (case decode_step d of
              Inl e \<Rightarrow> Inl e
            | Inr (Break d') \<Rightarrow> Inr d'
            | Inr (Continue d') \<Rightarrow> decode_loop d'))"
  by pat_completeness auto
termination
  by (relation "measure (\<lambda>d. length (stream d))") (auto dest: decode_step_shorter)

definition decompress :: "byte list \<Rightarrow> nat \<Rightarrow> error + byte list" where
  "decompress data buffer_size =
     (let data' = map reverse_bits data;
          stream0 = concat (map bits_of_byte data');
          out0 = replicate buffer_size 0
      in case read_rev 8 stream0 of
           Inl e \<Rightarrow> Inl e
         | Inr (header, s1) \<Rightarrow>
             (case decode_loop \<lparr>stream = s1, out = out0, out_pos = 0, total_decoded_count = 0\<rparr> of
                Inl e \<Rightarrow> Inl e
              | Inr d \<Rightarrow> Inr (take (total_decoded_count d) (out d))))"

text \<open>
  The payload \<open>data\<close> of an image: a \<open>bytes\<close> object, as the parameter is declared, or a
  \<open>memoryview\<close>, which is what \<open>read_image\<close> passes. Iterating over either gives its
  bytes.
\<close>

datatype payload = PyBytes "byte list" | PyMemoryview memoryview

definition payload_items :: "payload \<Rightarrow> byte list" where
  "payload_items data = (case data of PyBytes bs \<Rightarrow> bs | PyMemoryview v \<Rightarrow> mv_tobytes v)"

text \<open>
  \<open>np.array(data, dtype=np.uint8)\<close>. A memoryview gives the one-dimensional array of its
  bytes. A \<open>bytes\<close> object is a string scalar to numpy, never a sequence of numbers: the
  conversion raises ValueError unless the bytes spell an integer literal, and then the
  result has no dimension and the \<open>len\<close> that follows in \<open>decompress_paletted_image\<close> raises.
  Either way the call of \<open>decompress_paletted_image\<close> ends in an exception; which one the
  numpy library raises for the bytes \<open>bs\<close> is the parameter \<open>bytes_error\<close>.
\<close>

definition np_array_uint8 :: "(byte list \<Rightarrow> error) \<Rightarrow> payload \<Rightarrow> error + byte list" where
  "np_array_uint8 bytes_error data =
     (case data of
        PyBytes bs \<Rightarrow> Inl (bytes_error bs)
      | PyMemoryview v \<Rightarrow> Inr (mv_tobytes v))"

text \<open>
  \<open>decompress_paletted_image\<close>; the result is the list of the rows of the returned
  two-dimensional array, \<open>np.flip(_, axis=0)\<close> reverses their order.
\<close>

definition decompress_paletted_image ::
  "(byte list \<Rightarrow> error) \<Rightarrow> payload \<Rightarrow> nat \<times> nat \<Rightarrow> bool \<Rightarrow> nat \<Rightarrow> error + byte list list" where
  "decompress_paletted_image bytes_error data wh compressed extra_width =
     (let w = fst wh + extra_width;
          h = snd wh
      in case (if compressed then decompress (payload_items data) (((w + 3) AND 0xfc) * h)
               else np_array_uint8 bytes_error data) of
           Inl e \<Rightarrow> Inl e
         | Inr decompressed \<Rightarrow>
             (let expected_len = w * h;
                  decompressed = (if expected_len < length decompressed
                                  then take expected_len decompressed else decompressed)
              in case reshape decompressed h w of
                   Inl e \<Rightarrow> Inl e
                 | Inr rows \<Rightarrow> Inr (rev rows)))"

definition read_image :: "(byte list \<Rightarrow> error) \<Rightarrow> Buffer \<Rightarrow> nat \<Rightarrow> error + (byte list list \<times> Buffer)" where
  "read_image bytes_error buf extra_width =
     (case locator True buf of
        Inl e \<Rightarrow> Inl e
      | Inr (b, buf1) \<Rightarrow>
          (let buf2 = skip 4 buf1;
               b1 = skip 1 b;
               (w, b2) = read_ushort b1;
               (h, b3) = read_ushort b2
           in case read b3 of
                Inl e \<Rightarrow> Inl e
              | Inr (compressed, b4) \<Rightarrow>
                  (let (comp_length, b5) = read_ulong b4;
                       (data, b6) = read_bytes (nat comp_length) b5
                   in case decompress_paletted_image bytes_error (PyMemoryview data) (nat w, nat h)
                             (compressed \<noteq> 0) extra_width of
                        Inl e \<Rightarrow> Inl e
                      | Inr img \<Rightarrow> Inr (img, buf2))))"

section \<open>structs.py\<close>

subsection \<open>Character information\<close>

record LocalizedInfo =
  numeric_lang_id :: int
  name :: pystr
  description :: pystr
  extra_data :: pystr

definition localized_info :: "Buffer \<Rightarrow> LocalizedInfo \<times> Buffer" where
  "localized_info buf =
     (let (i, b1) = read_ushort buf;
          (n, b2) = read_string b1;
          (d, b3) = read_string b2;
          (x, b4) = read_string b3
      in (\<lparr>numeric_lang_id = i, name = n, description = d, extra_data = x\<rparr>, b4))"

definition LOCALES :: "int \<rightharpoonup> string" where
  "LOCALES = map_of
     [(0x401, ''ar_SA''), (0x404, ''zh_TW''), (0x405, ''cs_CZ''), (0x406, ''da_DK''),
      (0x407, ''de_DE''), (0x408, ''el_GR''), (0x009, ''en_US''), (0x40b, ''fi_FI''),
      (0x40c, ''fr_FR''), (0x40d, ''he_IL''), (0x40e, ''hu_HU''), (0x410, ''it_IT''),
      (0x411, ''ja_JP''), (0x412, ''ko_KR''), (0x413, ''nl_NL''), (0x414, ''nb_NO''),
      (0x415, ''pl_PL''), (0x416, ''pt_BR''), (0x418, ''ro_RO''), (0x419, ''ru_RU''),
      (0x41a, ''hr_HR''), (0x41b, ''sk_SK''), (0x41d, ''sv_SE''), (0x41e, ''th_TH''),
      (0x41f, ''tr_TR''), (0x424, ''sl_SI''), (0x42d, ''eu_ES''), (0x804, ''zh_CN''),
      (0x816, ''pt_PT''), (0xc0a, ''es_ES'')]"

record CharacterInfo =
  localized_infos :: "string \<rightharpoonup> LocalizedInfo"
  guid :: "byte list"
  character_size :: "int \<times> int"
  transparency_index :: int
  palette :: "byte list list"
  state_infos :: "pystr \<rightharpoonup> pystr list"

text \<open>\<open>CharacterInfo._skip_balloon_info\<close>.\<close>

definition skip_balloon_info :: "Buffer \<Rightarrow> Buffer" where
  "skip_balloon_info buf =
     (let b1 = skip (1 + 1 + 4 + 4 + 4) buf;
          (s, b2) = read_string b1
      in skip (4 + 4 + 1 + 1) b2)"

text \<open>
  The palette block of \<open>CharacterInfo.__init__\<close> (from \<open>palette_size = buf.read_ulong()\<close> to
  \<open>self.palette[self.transparency_index, :] = 0\<close>). The palette is the list of its rows,
  each row a list of four bytes. \<open>np.full_like\<close> gives the all-255 array of the same shape,
  the three column assignments fill columns 0, 1 and 2, and the last assignment stores 0
  in every column of one row.
\<close>

definition read_palette :: "int \<Rightarrow> Buffer \<Rightarrow> error + (byte list list \<times> Buffer)" where
  "read_palette tr_index buf =
     (let (palette_size, b1) = read_ulong buf;
          (raw, b2) = read_bytes (nat palette_size * 4) b1
      in case reshape (mv_tobytes raw) (nat palette_size) 4 of
           Inl e \<Rightarrow> Inl e
         | Inr src \<Rightarrow>
             (let p0 = map (\<lambda>row. replicate (length row) (255 :: byte)) src;
                  p1 = map2 (\<lambda>dst row. dst[0 := row ! 2]) p0 src;
                  p2 = map2 (\<lambda>dst row. dst[1 := row ! 1]) p1 src;
                  p3 = map2 (\<lambda>dst row. dst[2 := row ! 0]) p2 src
              in case np_index (length p3) tr_index of
                   Inl e \<Rightarrow> Inl e
                 | Inr j \<Rightarrow> Inr (p3[j := replicate 4 0], b2)))"

text \<open>The element reader \<open>lambda b: (b.read_string(), b.read_list(Buffer.read_string, ...))\<close>.\<close>

definition state_info_reader :: "Buffer \<Rightarrow> error + ((pystr \<times> pystr list) \<times> Buffer)" where
  "state_info_reader b =
     (let (state_name, b1) = read_string b
      in case read_list (Reader (\<lambda>b'. Inr (read_string b'))) CT_ushort None b1 of
           Inl e \<Rightarrow> Inl e
         | Inr (anim_names, b2) \<Rightarrow> Inr ((state_name, anim_names), b2))"

text \<open>
  \<open>CharacterInfo.__init__\<close>. The warning for an unknown locale id and the log line for the
  GUID are not modelled. \<open>UUID(bytes=...)\<close> raises ValueError unless it is given 16 bytes.
\<close>

definition CharacterInfo_init :: "Buffer \<Rightarrow> error + (CharacterInfo \<times> Buffer)" where
  "CharacterInfo_init buf =
     (let (r1, b1) = read_ushort buf;
          (r2, b2) = read_ushort b1
      in case locator True b2 of
           Inl e \<Rightarrow> Inl e
         | Inr (lb, b3) \<Rightarrow>
       (case read_list (Reader (\<lambda>b'. Inr (localized_info b'))) CT_ushort None lb of
           Inl e \<Rightarrow> Inl e
         | Inr (loc_info_list, lb') \<Rightarrow>
       (let infos = fold (\<lambda>loc_info m.
                            (case LOCALES (numeric_lang_id loc_info) of
                               Some locale_string \<Rightarrow> m(locale_string \<mapsto> loc_info)
                             | None \<Rightarrow> m))
                      loc_info_list Map.empty;
            (gbytes, b4) = read_bytes 16 b3
        in if length (mv_tobytes gbytes) \<noteq> 16 then Inl ValueError
           else
       (let (cw, b5) = read_ushort b4;
            (ch, b6) = read_ushort b5
        in case read b6 of
             Inl e \<Rightarrow> Inl e
           | Inr (tr_index, b7) \<Rightarrow>
       (let (r3, b8) = read_ulong b7;
            (r4, b9) = read_ushort b8;
            (r5, b10) = read_ushort b9;
            b11 = skip_balloon_info b10
        in case read_palette tr_index b11 of
             Inl e \<Rightarrow> Inl e
           | Inr (pal, b12) \<Rightarrow>
       (case read b12 of
             Inl e \<Rightarrow> Inl e
           | Inr (tray_icon, b13) \<Rightarrow>
               if tray_icon = 1 then Inl NotImplementedError
               else
       (case read_list (Reader state_info_reader) CT_ushort None b13 of
             Inl e \<Rightarrow> Inl e
           | Inr (states, b14) \<Rightarrow>
               Inr (\<lparr>localized_infos = infos, guid = mv_tobytes gbytes,
                     character_size = (cw, ch), transparency_index = tr_index,
                     palette = pal, state_infos = map_of (rev states)\<rparr>, b14))))))))"

subsection \<open>Frames and branches\<close>

record FrameImage =
  image_idx :: int
  offset :: "int \<times> int"

definition frame_image :: "Buffer \<Rightarrow> FrameImage \<times> Buffer" where
  "frame_image buf =
     (let (i, b1) = read_ulong buf;
          (x, b2) = read_integer 2 True b1;
          (y, b3) = read_integer 2 True b2
      in (\<lparr>image_idx = i, offset = (x, y)\<rparr>, b3))"

record BranchInfo =
  jump_target_idx :: int
  prob_percent :: int

definition branch_info :: "Buffer \<Rightarrow> BranchInfo \<times> Buffer" where
  "branch_info buf =
     (let (t, b1) = read_ushort buf;
          (p, b2) = read_ushort b1
      in (\<lparr>jump_target_idx = t, prob_percent = p\<rparr>, b2))"

record FrameInfo =
  frame_images :: "FrameImage list"
  audio_idx :: int
  duration_centiseconds :: int
  exit_index :: int
  branch_infos :: "BranchInfo list"

text \<open>\<open>FrameInfo.__init__\<close>.\<close>

definition FrameInfo_init :: "Buffer \<Rightarrow> error + (FrameInfo \<times> Buffer)" where
  "FrameInfo_init buf =
     (case read_list (Reader (\<lambda>b'. Inr (frame_image b'))) CT_ushort None buf of
        Inl e \<Rightarrow> Inl e
      | Inr (images, b1) \<Rightarrow>
          (let (a, b2) = read_ushort b1;
               (d, b3) = read_ushort b2;
               (x, b4) = read_integer 2 True b3
           in case read_list (Reader (\<lambda>b'. Inr (branch_info b'))) CT_byte None b4 of
                Inl e \<Rightarrow> Inl e
              | Inr (branches, b5) \<Rightarrow>
                  (case read b5 of
                     Inl e \<Rightarrow> Inl e
                   | Inr (overlay, b6) \<Rightarrow>
                       if 0 < overlay then Inl NotImplementedError
                       else Inr (\<lparr>frame_images = images, audio_idx = a,
                                   duration_centiseconds = d, exit_index = x,
                                   branch_infos = branches\<rparr>, b6))))"

text \<open>The \<open>for\<close> loop of \<open>pick_jump_destination\<close>, with \<open>prob_sum\<close> as it stands before the branch.\<close>

fun pick_loop :: "int \<Rightarrow> int \<Rightarrow> BranchInfo list \<Rightarrow> int option" where
  "pick_loop rand_value prob_sum [] = None"
| "pick_loop rand_value prob_sum (branch # rest) =
     (let prob_sum' = prob_sum + prob_percent branch
      in if rand_value < prob_sum' then Some (jump_target_idx branch)
         else pick_loop rand_value prob_sum' rest)"

definition pick_jump_destination :: "FrameInfo \<Rightarrow> int \<Rightarrow> int option" where
  "pick_jump_destination fi rand_value = pick_loop rand_value 0 (branch_infos fi)"

subsection \<open>Animations\<close>

record AnimInfo =
  name :: pystr
  transition_type :: int
  return_anim_name :: pystr
  frames :: "FrameInfo list"

text \<open>\<open>AnimInfo.__init__\<close>.\<close>

definition AnimInfo_init :: "Buffer \<Rightarrow> error + (AnimInfo \<times> Buffer)" where
  "AnimInfo_init buf =
     (let (n, b1) = read_string buf
      in case read b1 of
           Inl e \<Rightarrow> Inl e
         | Inr (t, b2) \<Rightarrow>
             (let (r, b3) = read_string b2
              in case read_list (Reader FrameInfo_init) CT_ushort None b3 of
                   Inl e \<Rightarrow> Inl e
                 | Inr (fs, b4) \<Rightarrow>
                     Inr (\<lparr>name = n, transition_type = t, return_anim_name = r, frames = fs\<rparr>, b4)))"

text \<open>
  \<open>anim_info\<close>. \<open>str.upper\<close> belongs to the Python library and is the parameter \<open>upper\<close>.
  The function returns the \<open>AnimInfo\<close> and the warnings it has logged; a warning is the
  pair of strings its message shows, \<open>name\<close> and \<open>upper_name\<close>.
\<close>

definition anim_info :: "(pystr \<Rightarrow> pystr) \<Rightarrow> Buffer \<Rightarrow> error + ((AnimInfo \<times> (pystr \<times> pystr) list) \<times> Buffer)" where
  "anim_info upper buf =
     (let (outer_name, b1) = read_string buf
      in case locator True b1 of
           Inl e \<Rightarrow> Inl e
         | Inr (sub, b2) \<Rightarrow>
             (case AnimInfo_init sub of
                Inl e \<Rightarrow> Inl e
              | Inr (info, sub') \<Rightarrow>
                  (let upper_name = upper outer_name
                   in Inr ((info, if upper_name \<noteq> name info then [(outer_name, upper_name)] else []),
                           b2))))"

text \<open>
  \<open>str.upper\<close> on strings of ASCII characters: the letters a to z are replaced by A to Z,
  every other ASCII character is kept. Code points from 128 on are kept as well, which is
  not what Python does for every one of them; the function is only applied to ASCII
  strings below.
\<close>

definition ascii_upper :: "pystr \<Rightarrow> pystr" where
  "ascii_upper s = map (\<lambda>c. if 97 \<le> c \<and> c \<le> 122 then c - 32 else c) s"

section \<open>Notions used to state the properties\<close>

text \<open>The cumulative probability of the first \<open>i\<close> branches of a branch list.\<close>

definition cumulative_prob :: "BranchInfo list \<Rightarrow> nat \<Rightarrow> int" where
  "cumulative_prob brs i = sum_list (map prob_percent (take i brs))"

definition example_branches :: "BranchInfo list" where
  "example_branches =
     [\<lparr>jump_target_idx = 3, prob_percent = 30\<rparr>, \<lparr>jump_target_idx = 7, prob_percent = 40\<rparr>]"

definition example_frame :: FrameInfo where
  "example_frame = \<lparr>frame_images = [], audio_idx = 65535, duration_centiseconds = 10,
                     exit_index = -1, branch_infos = example_branches\<rparr>"

text \<open>A buffer over a whole byte string, as \<open>AcsFile.__init__\<close> makes it: \<open>Buffer(mv, mv, 0)\<close>.\<close>

definition buffer_of_bytes :: "byte list \<Rightarrow> Buffer" where
  "buffer_of_bytes bs = \<lparr>mv = mv_of_bytes bs, root = mv_of_bytes bs, abs_offset = 0, pos = 0\<rparr>"

text \<open>
  The value of a bit sequence read with \<open>read_rev\<close>: the first bit read is the least
  significant one.
\<close>

fun bits_value :: "bool list \<Rightarrow> nat" where
  "bits_value [] = 0"
| "bits_value (b # bs) = of_bool b + 2 * bits_value bs"

text \<open>
  A unary run of \<open>k\<close> one-bits as \<open>count_consecutive_ones(limit)\<close> consumes it: the run is
  closed by a zero-bit unless it has the maximal length \<open>limit\<close>.
\<close>

definition unary_run :: "nat \<Rightarrow> nat \<Rightarrow> bool list" where
  "unary_run limit k = replicate k True @ (if k < limit then [False] else [])"

text \<open>
  The length of a copy with first unary run \<open>k\<close>, second unary run \<open>m\<close> and the \<open>m\<close> extra
  bits \<open>extra\<close>: the minimum length, 3 for the 20-bit offset field and 2 otherwise, plus
  \<open>(2^m - 1) + read_rev(m)\<close>.
\<close>

definition copy_length :: "nat \<Rightarrow> nat \<Rightarrow> bool list \<Rightarrow> nat" where
  "copy_length k m extra = (if k = 3 then 3 else 2) + ((2 ^ m - 1) + bits_value extra)"

text \<open>
  \<open>steps_to d d'\<close>: the loop of \<open>decompress\<close>, started with its variables as in \<open>d\<close>, comes
  to the head of the loop with its variables as in \<open>d'\<close> after some iterations, none of
  which raises or breaks.
\<close>

inductive steps_to :: "decoder \<Rightarrow> decoder \<Rightarrow> bool" where
  steps_refl: "steps_to d d"
| steps_step: "decode_step d = Inr (Continue d') \<Longrightarrow> steps_to d' d'' \<Longrightarrow> steps_to d d''"

text \<open>
  A compressed stream: the header byte, the literal 0xAA, a copy with offset 1 and length 5,
  the end-of-stream marker, and ten more bits that are never read. \<open>example_copy_state\<close>
  holds the variables of the loop before the copy, \<open>example_final_state\<close> after it.
\<close>

definition example_data :: "byte list" where
  "example_data = [0x00, 0x54, 0x03, 0xC6, 0xFF, 0xFF, 0xFF, 0x12]"

definition example_tail :: "bool list" where
  "example_tail = [True, True, False, True, False, False, True, False, False, False]"

definition example_copy_state :: decoder where
  "example_copy_state =
     \<lparr>stream = True # unary_run 3 0 @ replicate 6 False @ unary_run 12 2 @ [False, False]
                @ replicate 24 True @ example_tail,
      out = [0xAA, 0, 0, 0, 0, 0], out_pos = 1, total_decoded_count = 1\<rparr>"

definition example_final_state :: decoder where
  "example_final_state =
     \<lparr>stream = replicate 24 True @ example_tail,
      out = replicate 6 0xAA, out_pos = 6, total_decoded_count = 6\<rparr>"

text \<open>
  A stream whose copy reaches before the start of the output: the header byte, the literal
  0xA1, a copy with offset 4 (offset field 3) and length 2 at position 1, the end-of-stream
  marker and six more bits. \<open>wrap_literal\<close> is the bits of the literal, \<open>wrap_copy_stream\<close>
  the stream from the copy on.
\<close>

definition wrap_data :: "byte list" where
  "wrap_data = [0x00, 0x42, 0x1B, 0xFC, 0xFF, 0xFF, 0xFF]"

definition wrap_literal :: "bool list" where
  "wrap_literal = [True, False, False, False, False, True, False, True]"

definition wrap_copy_stream :: "bool list" where
  "wrap_copy_stream =
     True # unary_run 3 0 @ [True, True, False, False, False, False] @ unary_run 12 0 @ []
       @ replicate 24 True @ replicate 6 True"

text \<open>
  A compressed image of one row of 256 pixels: the header byte, the literal 0xAA, a copy
  with offset 1 and length 255 (second unary run 7, extra bits 126) and the end-of-stream
  marker.
\<close>

definition wide_data :: "byte list" where
  "wide_data = [0x00, 0x54, 0x03, 0xFE, 0xFC, 0xFF, 0xFF, 0xFF]"

definition wide_literal :: "bool list" where
  "wide_literal = [False, True, False, True, False, True, False, True]"

definition wide_extra :: "bool list" where
  "wide_extra = [False, True, True, True, True, True, True]"

definition wide_copy_stream :: "bool list" where
  "wide_copy_stream =
     True # unary_run 3 0 @ replicate 6 False @ unary_run 12 7 @ wide_extra
       @ replicate 24 True @ []"

text \<open>A stream whose first step is a copy with a second unary run of twelve one-bits.\<close>

definition corrupt_data :: "byte list" where
  "corrupt_data = [0x00, 0x01, 0xFF, 0x0F]"

text \<open>
  The row stride of the spec, \<open>(w + 3) & ~3\<close>, and the image the spec describes: row \<open>r\<close> of
  the result is row \<open>h - 1 - r\<close> of the byte stream, rows being \<open>aligned_stride w\<close> bytes
  apart, cut to its first \<open>w\<close> bytes.
\<close>

definition aligned_stride :: "nat \<Rightarrow> nat" where
  "aligned_stride w = (w + 3) div 4 * 4"

definition spec_image_rows :: "nat \<Rightarrow> nat \<Rightarrow> byte list \<Rightarrow> byte list list" where
  "spec_image_rows w h bytes =
     map (\<lambda>r. take w (drop ((h - 1 - r) * aligned_stride w) bytes)) [0..<h]"

text \<open>Two rows of three pixels, each row padded to four bytes.\<close>

definition example_raster :: "byte list" where
  "example_raster = [1, 2, 3, 0] @ [4, 5, 6, 0]"

text \<open>A palette block: the count 2 and the entries (1, 2, 3, 9) and (4, 5, 6, 9).\<close>

definition example_palette_block :: Buffer where
  "example_palette_block = buffer_of_bytes ([2, 0, 0, 0] @ [1, 2, 3, 9, 4, 5, 6, 9])"

text \<open>
  Two animation records: the outer name, the locator of the record and the record itself
  (inner name, transition type 2, empty return animation name, no frames). In the first
  the outer name is "A" and the inner name "a"; in the second it is the other way round.
\<close>

definition example_anim_record :: Buffer where
  "example_anim_record = buffer_of_bytes
     [1, 0, 0, 0, 65, 0, 0, 0, 16, 0, 0, 0, 15, 0, 0, 0,
      1, 0, 0, 0, 97, 0, 0, 0, 2, 0, 0, 0, 0, 0, 0]"

definition upper_anim_record :: Buffer where
  "upper_anim_record = buffer_of_bytes
     [1, 0, 0, 0, 97, 0, 0, 0, 16, 0, 0, 0, 15, 0, 0, 0,
      1, 0, 0, 0, 65, 0, 0, 0, 2, 0, 0, 0, 0, 0, 0]"

section \<open>The buffer\<close>

lemma mv_tobytes_slice:
  "mv_tobytes (mv_slice v a b) =
     take (min b (mv_len v) - min a (mv_len v)) (drop (min a (mv_len v)) (mv_tobytes v))"
  by (simp add: mv_tobytes_def mv_slice_def Let_def drop_take add.commute min_def)

lemma mv_len_slice: "mv_len (mv_slice v a b) = min b (mv_len v) - min a (mv_len v)"
  by (simp add: mv_slice_def Let_def)

lemma length_mv_tobytes_le: "length (mv_tobytes v) \<le> mv_len v"
  by (simp add: mv_tobytes_def)

lemma length_mv_tobytes: "mv_valid v \<Longrightarrow> length (mv_tobytes v) = mv_len v"
  by (auto simp: mv_tobytes_def mv_valid_def)

lemma mv_valid_slice: "mv_valid v \<Longrightarrow> mv_valid (mv_slice v a b)"
  by (auto simp: mv_valid_def mv_slice_def Let_def min_def)

lemma mv_tobytes_of_bytes: "mv_tobytes (mv_of_bytes bs) = bs"
  by (simp add: mv_tobytes_def mv_of_bytes_def)

lemma mv_valid_of_bytes: "mv_valid (mv_of_bytes bs)"
  by (simp add: mv_valid_def mv_of_bytes_def)

lemma mv_tobytes_slice_past_end:
  assumes "mv_len v < a + n"
  shows "mv_tobytes (mv_slice v a (a + n)) = drop a (mv_tobytes v)"
proof (cases "a \<le> mv_len v")
  case True
  have "length (drop a (mv_tobytes v)) \<le> mv_len v - a"
    using length_mv_tobytes_le [of v] by simp
  then show ?thesis
    using True assms by (simp add: mv_tobytes_slice min_def)
next
  case False
  then have "drop a (mv_tobytes v) = []"
    using length_mv_tobytes_le [of v] by simp
  then show ?thesis
    using False by (simp add: mv_tobytes_slice min_def)
qed

lemma read_integer_at_cursor:
  assumes "mv_tobytes (mv b) = pre @ bs @ rest" "length pre = pos b" "length bs = n"
  shows "read_integer n False b = (int (from_bytes_little bs), b\<lparr>pos := pos b + n\<rparr>)"
proof -
  have "length (pre @ bs @ rest) \<le> mv_len (mv b)"
    using length_mv_tobytes_le [of "mv b"] assms(1) by simp
  then have le: "pos b + n \<le> mv_len (mv b)"
    using assms(2,3) by simp
  have "mv_tobytes (mv_slice (mv b) (pos b) (pos b + n)) = take n (drop (pos b) (pre @ bs @ rest))"
    using le by (simp add: mv_tobytes_slice assms(1) min_def)
  also have "\<dots> = bs"
    using assms(2,3) by simp
  finally show ?thesis
    by (simp add: read_integer_def read_bytes_def int_from_bytes_def)
qed

lemma read_ulong_at_cursor:
  assumes "mv_tobytes (mv b) = pre @ bs @ rest" "length pre = pos b" "length bs = 4"
  shows "read_ulong b = (int (from_bytes_little bs), b\<lparr>pos := pos b + 4\<rparr>)"
  unfolding read_ulong_def using assms by (rule read_integer_at_cursor)

lemma read_ulong_buffer_of_bytes:
  "length bs = 4 \<Longrightarrow>
   read_ulong (buffer_of_bytes (bs @ rest)) = (int (from_bytes_little bs), (buffer_of_bytes (bs @ rest))\<lparr>pos := 4\<rparr>)"
  by (simp add: read_ulong_def read_integer_def read_bytes_def buffer_of_bytes_def mv_of_bytes_def
      mv_slice_def mv_tobytes_def int_from_bytes_def Let_def)

text \<open>
  C3: for a buffer whose cursor holds two 4-byte unsigned values (offset, size),
  \<open>locator\<close> raises IndexError if offset + size exceeds the length of the root backing
  array, and otherwise returns a new buffer whose view is the window [offset, offset + size)
  of the root backing array: the same underlying object, nothing copied, and the window
  lies inside the root array.
\<close>

theorem locator_bounds_checked:
  assumes cursor: "mv_tobytes (mv b) = pre @ a4 @ s4 @ rest"
    and pre: "length pre = pos b" and a4: "length a4 = 4" and s4: "length s4 = 4"
    and rv: "mv_valid (root b)"
  shows "(mv_len (root b) < from_bytes_little a4 + from_bytes_little s4 \<longrightarrow>
            locator True b = Inl IndexError)
       \<and> (from_bytes_little a4 + from_bytes_little s4 \<le> mv_len (root b) \<longrightarrow>
            (\<exists>v. locator True b = Inr (v, b\<lparr>pos := pos b + 8\<rparr>)
               \<and> mv v = \<lparr>mv_obj = mv_obj (root b),
                          mv_start = mv_start (root b) + from_bytes_little a4,
                          mv_len = from_bytes_little s4\<rparr>
               \<and> root v = root b \<and> abs_offset v = from_bytes_little a4 \<and> pos v = 0
               \<and> mv_valid (mv v)
               \<and> mv_tobytes (mv v) =
                   take (from_bytes_little s4) (drop (from_bytes_little a4) (mv_tobytes (root b)))
               \<and> length (mv_tobytes (mv v)) = from_bytes_little s4))"
proof -
  let ?a = "from_bytes_little a4" and ?s = "from_bytes_little s4"
  let ?b1 = "b\<lparr>pos := pos b + 4\<rparr>"
  have r1: "read_ulong b = (int ?a, ?b1)"
    using cursor pre a4 by (rule read_ulong_at_cursor)
  have "mv_tobytes (mv ?b1) = (pre @ a4) @ s4 @ rest"
    using cursor by simp
  moreover have "length (pre @ a4) = pos ?b1"
    using pre a4 by simp
  ultimately have "read_ulong ?b1 = (int ?s, ?b1\<lparr>pos := pos ?b1 + 4\<rparr>)"
    using s4 by (rule read_ulong_at_cursor)
  then have r2: "read_ulong ?b1 = (int ?s, b\<lparr>pos := pos b + 8\<rparr>)"
    by simp
  have fail: "locator True b = Inl IndexError" if "mv_len (root b) < ?a + ?s"
    using that by (simp add: locator_def r1 r2)
  have ok: "\<exists>v. locator True b = Inr (v, b\<lparr>pos := pos b + 8\<rparr>)
               \<and> mv v = \<lparr>mv_obj = mv_obj (root b), mv_start = mv_start (root b) + ?a,
                          mv_len = ?s\<rparr>
               \<and> root v = root b \<and> abs_offset v = ?a \<and> pos v = 0
               \<and> mv_valid (mv v)
               \<and> mv_tobytes (mv v) = take ?s (drop ?a (mv_tobytes (root b)))
               \<and> length (mv_tobytes (mv v)) = ?s"
    if le: "?a + ?s \<le> mv_len (root b)"
  proof -
    let ?v = "\<lparr>mv = mv_slice (root b) ?a (?a + ?s), root = root b, abs_offset = ?a, pos = 0\<rparr>"
    have nat_sum: "nat (int ?a + int ?s) = ?a + ?s"
      by (simp add: nat_add_distrib)
    have loc: "locator True b = Inr (?v, b\<lparr>pos := pos b + 8\<rparr>)"
      using le by (simp add: locator_def r1 r2 nat_sum)
    have sl: "mv_slice (root b) ?a (?a + ?s) =
                \<lparr>mv_obj = mv_obj (root b), mv_start = mv_start (root b) + ?a, mv_len = ?s\<rparr>"
      using le by (simp add: mv_slice_def Let_def min_def)
    have valid: "mv_valid (mv_slice (root b) ?a (?a + ?s))"
      using rv by (rule mv_valid_slice)
    have bytes: "mv_tobytes (mv_slice (root b) ?a (?a + ?s)) = take ?s (drop ?a (mv_tobytes (root b)))"
      using le by (simp add: mv_tobytes_slice min_def)
    have "length (mv_tobytes (mv_slice (root b) ?a (?a + ?s))) = ?s"
      using length_mv_tobytes [OF valid] by (simp add: sl)
    with loc sl valid bytes show ?thesis by simp
  qed
  from fail ok show ?thesis by blast
qed

theorem locator_bounds_checked_witness:
  "locator True (buffer_of_bytes [8, 0, 0, 0, 3, 0, 0, 0, 0xAA, 0xBB]) = Inl IndexError
   \<and> (\<exists>v. locator True (buffer_of_bytes [8, 0, 0, 0, 2, 0, 0, 0, 0xAA, 0xBB])
            = Inr (v, (buffer_of_bytes [8, 0, 0, 0, 2, 0, 0, 0, 0xAA, 0xBB])\<lparr>pos := 8\<rparr>)
          \<and> mv_start (mv v) = 8 \<and> mv_len (mv v) = 2 \<and> mv_tobytes (mv v) = [0xAA, 0xBB])"
proof -
  let ?bad = "buffer_of_bytes [8, 0, 0, 0, 3, 0, 0, 0, 0xAA, 0xBB]"
  let ?good = "buffer_of_bytes [8, 0, 0, 0, 2, 0, 0, 0, 0xAA, 0xBB]"
  have bad: "mv_tobytes (mv ?bad) = [] @ [8, 0, 0, 0] @ [3, 0, 0, 0] @ [0xAA, 0xBB]"
    by (simp add: buffer_of_bytes_def mv_tobytes_of_bytes)
  have good: "mv_tobytes (mv ?good) = [] @ [8, 0, 0, 0] @ [2, 0, 0, 0] @ [0xAA, 0xBB]"
    by (simp add: buffer_of_bytes_def mv_tobytes_of_bytes)
  have p1: "length ([] :: byte list) = pos ?bad" and p2: "length ([] :: byte list) = pos ?good"
    by (simp_all add: buffer_of_bytes_def)
  have v1: "mv_valid (root ?bad)" and v2: "mv_valid (root ?good)"
    by (simp_all add: buffer_of_bytes_def mv_valid_of_bytes)
  have l4: "length [8, 0, 0, 0 :: byte] = 4" "length [3, 0, 0, 0 :: byte] = 4"
    "length [2, 0, 0, 0 :: byte] = 4"
    by simp_all
  have "locator True ?bad = Inl IndexError"
    using locator_bounds_checked [OF bad p1 l4(1) l4(2) v1]
    by (simp add: buffer_of_bytes_def mv_of_bytes_def)
  moreover have "\<exists>v. locator True ?good = Inr (v, ?good\<lparr>pos := 8\<rparr>)
          \<and> mv_start (mv v) = 8 \<and> mv_len (mv v) = 2 \<and> mv_tobytes (mv v) = [0xAA, 0xBB]"
    using locator_bounds_checked [OF good p2 l4(1) l4(3) v2]
    by (auto simp: buffer_of_bytes_def mv_of_bytes_def mv_tobytes_def)
  ultimately show ?thesis by blast
qed

text \<open>
  C10: when \<open>pos + len\<close> exceeds the size of the buffer, \<open>read_bytes\<close> does not raise (it has
  no error result): it returns the view of the bytes that remain, fewer than \<open>len\<close> (none
  once \<open>pos\<close> is at or past the end), and still advances \<open>pos\<close> by \<open>len\<close>; \<open>read_integer\<close>
  decodes the bytes that remain (0 when none does). The single-byte \<open>read\<close> raises
  IndexError at or past the end, and only there.
\<close>

theorem read_bytes_past_end:
  assumes over: "mv_len (mv b) < pos b + len"
  shows "mv_len (fst (read_bytes len b)) = mv_len (mv b) - pos b
       \<and> (0 < len \<longrightarrow> mv_len (fst (read_bytes len b)) < len)
       \<and> (mv_len (mv b) \<le> pos b \<longrightarrow> mv_len (fst (read_bytes len b)) = 0)
       \<and> mv_tobytes (fst (read_bytes len b)) = drop (pos b) (mv_tobytes (mv b))
       \<and> snd (read_bytes len b) = b\<lparr>pos := pos b + len\<rparr>
       \<and> read_integer len sg b =
           (int_from_bytes (drop (pos b) (mv_tobytes (mv b))) sg, b\<lparr>pos := pos b + len\<rparr>)
       \<and> (mv_len (mv b) \<le> pos b \<longrightarrow> fst (read_integer len sg b) = 0)
       \<and> (mv_len (mv b) \<le> pos b \<longrightarrow> read b = Inl IndexError)
       \<and> (pos b < mv_len (mv b) \<longrightarrow> (\<exists>x. read b = Inr (x, b\<lparr>pos := pos b + 1\<rparr>)))"
proof -
  have len_eq: "mv_len (fst (read_bytes len b)) = mv_len (mv b) - pos b"
    using over by (simp add: read_bytes_def mv_len_slice min_def)
  have shorter: "mv_len (fst (read_bytes len b)) < len" if "0 < len"
    using over that by (simp add: len_eq)
  have bytes: "mv_tobytes (fst (read_bytes len b)) = drop (pos b) (mv_tobytes (mv b))"
    using over by (simp add: read_bytes_def mv_tobytes_slice_past_end)
  have state: "snd (read_bytes len b) = b\<lparr>pos := pos b + len\<rparr>"
    by (simp add: read_bytes_def)
  have rint: "read_integer len sg b =
           (int_from_bytes (drop (pos b) (mv_tobytes (mv b))) sg, b\<lparr>pos := pos b + len\<rparr>)"
    using bytes state by (simp add: read_integer_def split_beta)
  have zero: "fst (read_integer len sg b) = 0" if "mv_len (mv b) \<le> pos b"
  proof -
    have "drop (pos b) (mv_tobytes (mv b)) = []"
      using that length_mv_tobytes_le [of "mv b"] by simp
    then show ?thesis by (simp add: rint int_from_bytes_def)
  qed
  have raise: "read b = Inl IndexError" if "mv_len (mv b) \<le> pos b"
    using that by (simp add: read_def mv_getitem_def)
  have fine: "\<exists>x. read b = Inr (x, b\<lparr>pos := pos b + 1\<rparr>)" if "pos b < mv_len (mv b)"
    using that by (simp add: read_def mv_getitem_def)
  from len_eq shorter bytes state rint zero raise fine show ?thesis
    by simp
qed

theorem read_bytes_past_end_witness:
  "mv_tobytes (fst (read_bytes 4 ((buffer_of_bytes [1, 2, 3])\<lparr>pos := 2\<rparr>))) = [3]
   \<and> read_integer 4 False ((buffer_of_bytes [1, 2, 3])\<lparr>pos := 2\<rparr>)
       = (3, (buffer_of_bytes [1, 2, 3])\<lparr>pos := 6\<rparr>)
   \<and> read_integer 4 False ((buffer_of_bytes [1, 2, 3])\<lparr>pos := 3\<rparr>)
       = (0, (buffer_of_bytes [1, 2, 3])\<lparr>pos := 7\<rparr>)
   \<and> read ((buffer_of_bytes [1, 2, 3])\<lparr>pos := 3\<rparr>) = Inl IndexError"
proof -
  let ?b2 = "(buffer_of_bytes [1, 2, 3])\<lparr>pos := 2\<rparr>"
  let ?b3 = "(buffer_of_bytes [1, 2, 3])\<lparr>pos := 3\<rparr>"
  have h2: "mv_len (mv ?b2) < pos ?b2 + 4" and h3: "mv_len (mv ?b3) < pos ?b3 + 4"
    by (simp_all add: buffer_of_bytes_def mv_of_bytes_def)
  have t2: "mv_tobytes (mv (buffer_of_bytes [1, 2, 3])) = [1, 2, 3]"
    by (simp add: buffer_of_bytes_def mv_tobytes_of_bytes)
  have e3: "mv_len (mv ?b3) \<le> pos ?b3"
    by (simp add: buffer_of_bytes_def mv_of_bytes_def)
  note r2 = read_bytes_past_end [OF h2, of False]
  note r3 = read_bytes_past_end [OF h3, of False]
  have "mv_tobytes (fst (read_bytes 4 ?b2)) = [3]"
    using r2 by (simp add: t2)
  moreover have "read_integer 4 False ?b2 = (3, (buffer_of_bytes [1, 2, 3])\<lparr>pos := 6\<rparr>)"
    using r2 by (simp add: t2 int_from_bytes_def)
  moreover have "read_integer 4 False ?b3 = (0, (buffer_of_bytes [1, 2, 3])\<lparr>pos := 7\<rparr>)"
    using r3 by (simp add: t2 int_from_bytes_def)
  moreover have "read ?b3 = Inl IndexError"
    using r3 e3 by blast
  ultimately show ?thesis by simp
qed

text \<open>
  C8, as stated, fails: a length field of exactly 65536, which is not above the ceiling,
  makes \<open>read_list\<close> raise, and a length field of 65537 read with \<open>limit = 1\<close> does not.
\<close>

theorem read_list_guard_counterexample:
  "fst (read_ulong (buffer_of_bytes [0, 0, 1, 0])) = 65536
   \<and> read_list (Reader read) CT_ulong None (buffer_of_bytes [0, 0, 1, 0]) = Inl ValueError
   \<and> fst (read_ulong (buffer_of_bytes [1, 0, 1, 0, 7])) = 65537
   \<and> read_list (Reader read) CT_ulong (Some 1) (buffer_of_bytes [1, 0, 1, 0, 7])
       = Inr ([7], (buffer_of_bytes [1, 0, 1, 0, 7])\<lparr>pos := 5\<rparr>)"
proof -
  have a: "read_ulong (buffer_of_bytes [0, 0, 1, 0]) = (65536, (buffer_of_bytes [0, 0, 1, 0])\<lparr>pos := 4\<rparr>)"
    using read_ulong_buffer_of_bytes [of "[0, 0, 1, 0]" "[]"] by simp
  have b: "read_ulong (buffer_of_bytes [1, 0, 1, 0, 7]) = (65537, (buffer_of_bytes [1, 0, 1, 0, 7])\<lparr>pos := 4\<rparr>)"
    using read_ulong_buffer_of_bytes [of "[1, 0, 1, 0]" "[7]"] by simp
  have c: "read ((buffer_of_bytes [1, 0, 1, 0, 7])\<lparr>pos := 4\<rparr>) = Inr (7, (buffer_of_bytes [1, 0, 1, 0, 7])\<lparr>pos := 5\<rparr>)"
    by (simp add: read_def mv_getitem_def buffer_of_bytes_def mv_of_bytes_def)
  show ?thesis
    by (simp add: a b c read_list_def read_count_def read_list_inner_def)
qed

text \<open>
  C8, amended: \<open>read_list\<close> raises ValueError before any element is read, whatever the
  element reader, when the length after the optional limit clamp is 65536 or more; when
  the clamped length is below 65536 the guard does not fire and that many elements are
  read.
\<close>

theorem read_list_guard:
  assumes "read_count ct b = Inr (n, b1)"
  shows "(65536 \<le> (case limit of None \<Rightarrow> n | Some l \<Rightarrow> min l n) \<longrightarrow>
            read_list er ct limit b = Inl ValueError)
       \<and> ((case limit of None \<Rightarrow> n | Some l \<Rightarrow> min l n) < 65536 \<longrightarrow>
            read_list er ct limit b =
              (case er of
                 Reader f \<Rightarrow> read_elems f (nat (case limit of None \<Rightarrow> n | Some l \<Rightarrow> min l n)) b1
               | ReaderWithLength f \<Rightarrow>
                   read_elems (\<lambda>b'. f b' (case limit of None \<Rightarrow> n | Some l \<Rightarrow> min l n))
                     (nat (case limit of None \<Rightarrow> n | Some l \<Rightarrow> min l n)) b1))"
  using assms by (simp add: read_list_def read_list_inner_def split: elem_reader.splits)

theorem read_list_guard_witness:
  "read_list (Reader read) CT_ulong None (buffer_of_bytes [0, 0, 1, 0]) = Inl ValueError
   \<and> read_list (Reader read) CT_ulong None (buffer_of_bytes [1, 0, 0, 0, 7])
       = Inr ([7], (buffer_of_bytes [1, 0, 0, 0, 7])\<lparr>pos := 5\<rparr>)"
proof -
  have a: "read_count CT_ulong (buffer_of_bytes [0, 0, 1, 0]) = Inr (65536, (buffer_of_bytes [0, 0, 1, 0])\<lparr>pos := 4\<rparr>)"
    using read_ulong_buffer_of_bytes [of "[0, 0, 1, 0]" "[]"] by (simp add: read_count_def)
  have b: "read_count CT_ulong (buffer_of_bytes [1, 0, 0, 0, 7]) = Inr (1, (buffer_of_bytes [1, 0, 0, 0, 7])\<lparr>pos := 4\<rparr>)"
    using read_ulong_buffer_of_bytes [of "[1, 0, 0, 0]" "[7]"] by (simp add: read_count_def)
  have c: "read ((buffer_of_bytes [1, 0, 0, 0, 7])\<lparr>pos := 4\<rparr>) = Inr (7, (buffer_of_bytes [1, 0, 0, 0, 7])\<lparr>pos := 5\<rparr>)"
    by (simp add: read_def mv_getitem_def buffer_of_bytes_def mv_of_bytes_def)
  have "read_list (Reader read) CT_ulong None (buffer_of_bytes [0, 0, 1, 0]) = Inl ValueError"
    using read_list_guard [OF a, of None "Reader read"] by simp
  moreover have "read_list (Reader read) CT_ulong None (buffer_of_bytes [1, 0, 0, 0, 7])
       = Inr ([7], (buffer_of_bytes [1, 0, 0, 0, 7])\<lparr>pos := 5\<rparr>)"
    using read_list_guard [OF b, of None "Reader read"] by (simp add: c)
  ultimately show ?thesis by simp
qed

section \<open>Decompression\<close>

subsection \<open>Reading bits\<close>

lemma or_push_bit_step:
  "push_bit k (of_bool b) OR push_bit (Suc k) (v :: nat) = push_bit k (of_bool b + 2 * v)"
proof -
  have "(1 :: nat) OR 2 * v = 2 * v + of_bool (even (2 * v))"
    by (rule one_or_eq)
  then have "(1 :: nat) OR 2 * v = 1 + 2 * v"
    by simp
  then have "of_bool b OR 2 * v = of_bool b + 2 * v"
    by (cases b) simp_all
  then have "push_bit k (of_bool b + 2 * v) = push_bit k (of_bool b) OR push_bit k (2 * v)"
    by (simp add: push_bit_or [symmetric])
  also have "push_bit k (2 * v) = push_bit (Suc k) v"
    by (simp add: push_bit_Suc mult.commute)
  finally show ?thesis by simp
qed

lemma read_rev_loop_bits:
  "length bs = n \<Longrightarrow>
   read_rev_loop n k acc (bs @ rest) = Inr (acc OR push_bit k (bits_value bs), rest)"
proof (induction n arbitrary: k acc bs)
  case 0
  then show ?case by simp
next
  case (Suc n)
  then obtain b bs' where bs: "bs = b # bs'" and len: "length bs' = n"
    by (cases bs) auto
  have "read_rev_loop (Suc n) k acc (bs @ rest)
          = read_rev_loop n (k + 1) (acc OR push_bit k (of_bool b)) (bs' @ rest)"
    by (simp add: bs read_bit_def)
  also have "\<dots> = Inr ((acc OR push_bit k (of_bool b)) OR push_bit (k + 1) (bits_value bs'), rest)"
    using len by (rule Suc.IH)
  also have "(acc OR push_bit k (of_bool b)) OR push_bit (k + 1) (bits_value bs')
               = acc OR push_bit k (bits_value bs)"
    using or_push_bit_step [of k b "bits_value bs'"] by (simp add: bs or.assoc)
  finally show ?case .
qed

lemma read_rev_bits:
  "length bs = n \<Longrightarrow> read_rev n (bs @ rest) = Inr (bits_value bs, rest)"
  using read_rev_loop_bits [of bs n 0 0 rest] by (simp add: read_rev_def)

lemma count_ones_loop_run:
  "k \<le> n \<Longrightarrow>
   count_ones_loop n c (replicate k True @ (if k < n then [False] else []) @ rest) = Inr (c + k, rest)"
proof (induction n arbitrary: c k)
  case 0
  then show ?case by simp
next
  case (Suc n)
  show ?case
  proof (cases k)
    case 0
    then show ?thesis by (simp add: read_bit_def)
  next
    case (Suc j)
    then have "j \<le> n" using Suc.prems by simp
    from Suc.IH [OF this, of "c + 1"] Suc show ?thesis
      by (simp add: read_bit_def)
  qed
qed

lemma count_consecutive_ones_run:
  "k \<le> limit \<Longrightarrow> count_consecutive_ones limit (unary_run limit k @ rest) = Inr (k, rest)"
  using count_ones_loop_run [of k limit 0 rest]
  by (simp add: count_consecutive_ones_def unary_run_def)

lemma bits_value_replicate_True_Suc: "Suc (bits_value (replicate n True)) = 2 ^ n"
  by (induction n) simp_all

lemma bits_value_replicate_True: "bits_value (replicate n True) = 2 ^ n - 1"
  using bits_value_replicate_True_Suc [of n] by simp

lemma bits_value_less: "bits_value bs < 2 ^ length bs"
  by (induction bs) (auto simp: algebra_simps)

lemma bits_value_replicate_False: "bits_value (replicate n False) = 0"
  by (induction n) simp_all

subsection \<open>The steps of the loop\<close>

lemma VALUE_BIT_COUNT_20: "k \<le> 3 \<Longrightarrow> VALUE_BIT_COUNT ! k = 20 \<longleftrightarrow> k = 3"
proof -
  assume "k \<le> 3"
  then have "k = 0 \<or> k = 1 \<or> k = 2 \<or> k = 3" by arith
  then show ?thesis by (auto simp: VALUE_BIT_COUNT_def)
qed

lemma OFFSET_TO_ADD_pos: "k \<le> 3 \<Longrightarrow> 0 < OFFSET_TO_ADD ! k"
proof -
  assume "k \<le> 3"
  then have "k = 0 \<or> k = 1 \<or> k = 2 \<or> k = 3" by arith
  then show ?thesis by (auto simp: OFFSET_TO_ADD_def)
qed

lemma decode_step_literal:
  assumes "stream d = False # bs @ rest" "length bs = 8" "out_pos d < length (out d)"
  shows "decode_step d =
           Inr (Continue \<lparr>stream = rest, out = (out d)[out_pos d := of_nat (bits_value bs)],
                           out_pos = out_pos d + 1,
                           total_decoded_count = total_decoded_count d + 1\<rparr>)"
proof -
  have r: "read_rev 8 (bs @ rest) = Inr (bits_value bs, rest)"
    using assms(2) by (rule read_rev_bits)
  show ?thesis
    using assms(3) by (simp add: decode_step_def assms(1) read_bit_def r np_setitem_def np_index_def)
qed

lemma decode_step_back_reference:
  assumes bits: "stream d = True # unary_run 3 k @ field @ unary_run 12 m @ extra @ rest"
    and k: "k \<le> 3" and field: "length field = VALUE_BIT_COUNT ! k"
    and ns: "\<not> (k = 3 \<and> bits_value field = 0xFFFFF)"
    and m: "m \<le> 12" and extra: "m < 12 \<Longrightarrow> length extra = m"
  shows "decode_step d =
           (if m = 12 then Inl AssertionError
            else case copy_loop (copy_length k m extra) 0 (out_pos d)
                        (int (total_decoded_count d) - int (bits_value field + OFFSET_TO_ADD ! k))
                        (out d) of
                   Inl e \<Rightarrow> Inl e
                 | Inr out' \<Rightarrow>
                     Inr (Continue \<lparr>stream = rest, out = out',
                            out_pos = out_pos d + copy_length k m extra,
                            total_decoded_count = total_decoded_count d + copy_length k m extra\<rparr>))"
proof -
  have c1: "count_consecutive_ones 3 (unary_run 3 k @ field @ unary_run 12 m @ extra @ rest)
              = Inr (k, field @ unary_run 12 m @ extra @ rest)"
    using k by (rule count_consecutive_ones_run)
  have r1: "read_rev (VALUE_BIT_COUNT ! k) (field @ unary_run 12 m @ extra @ rest)
              = Inr (bits_value field, unary_run 12 m @ extra @ rest)"
    using field by (rule read_rev_bits)
  have c2: "count_consecutive_ones 12 (unary_run 12 m @ extra @ rest) = Inr (m, extra @ rest)"
    using m by (rule count_consecutive_ones_run)
  have v20: "VALUE_BIT_COUNT ! k = 20 \<longleftrightarrow> k = 3"
    using k by (rule VALUE_BIT_COUNT_20)
  have sent: "\<not> (VALUE_BIT_COUNT ! k = 20 \<and> bits_value field = 0xFFFFF)"
    using ns v20 by simp
  have add1: "push_bit m (1 :: nat) - 1 = 2 ^ m - 1"
    by (simp add: push_bit_eq_mult)
  have sent': "(VALUE_BIT_COUNT ! k = 20 \<and> bits_value field = 0x000FFFFF) = False"
    using sent by simp
  have rb: "read_bit (True # unary_run 3 k @ field @ unary_run 12 m @ extra @ rest)
              = Inr (True, unary_run 3 k @ field @ unary_run 12 m @ extra @ rest)"
    by (simp add: read_bit_def)
  have len: "(if VALUE_BIT_COUNT ! k = 20 then 2 + 1 else 2) + (push_bit m 1 - 1 + bits_value extra)
               = copy_length k m extra"
    using v20 by (simp add: copy_length_def add1 del: One_nat_def)
  show ?thesis
  proof (cases "m = 12")
    case True
    then have c2': "count_consecutive_ones 12 (unary_run 12 m @ extra @ rest) = Inr (12, extra @ rest)"
      using c2 by simp
    have eq: "(m = 12) = True" using True by simp
    show ?thesis
      by (simp only: decode_step_def bits rb c1 r1 c2' sent' eq Let_def
            sum.case prod.case not_True_eq_False if_False if_True refl)
  next
    case False
    then have ne: "(m = 12) = False" by simp
    have "length extra = m"
      using False m by (simp add: extra)
    then have r2: "read_rev m (extra @ rest) = Inr (bits_value extra, rest)"
      by (rule read_rev_bits)
    show ?thesis
      by (simp only: decode_step_def bits rb c1 r1 c2 r2 sent' ne len Let_def
            sum.case prod.case not_True_eq_False if_False if_True)
  qed
qed

lemma decode_step_sentinel:
  assumes "stream d = replicate 24 True @ rest"
  shows "decode_step d = Inr (Break (d\<lparr>stream := rest\<rparr>))"
proof -
  have split: "replicate 24 True @ rest = True # unary_run 3 3 @ replicate 20 True @ rest"
    by (simp add: unary_run_def eval_nat_numeral)
  have c: "count_consecutive_ones 3 (unary_run 3 3 @ replicate 20 True @ rest)
             = Inr (3, replicate 20 True @ rest)"
    by (rule count_consecutive_ones_run) simp
  have r: "read_rev 20 (replicate 20 True @ rest) = Inr (bits_value (replicate 20 True), rest)"
    by (rule read_rev_bits) simp
  have v: "bits_value (replicate 20 True) = 0xFFFFF"
    by (simp add: bits_value_replicate_True)
  show ?thesis
    unfolding decode_step_def assms split
    by (simp add: read_bit_def c r v VALUE_BIT_COUNT_def)
qed

lemma steps_to_decode_loop: "steps_to d d' \<Longrightarrow> decode_loop d = decode_loop d'"
proof (induction rule: steps_to.induct)
  case (steps_refl d)
  then show ?case by simp
next
  case (steps_step d d' d'')
  have "stream d \<noteq> []"
    using steps_step.hyps(1) by (auto simp: decode_step_def read_bit_def)
  then have "decode_loop d = decode_loop d'"
    using steps_step.hyps(1) by simp
  with steps_step.IH show ?case by simp
qed

lemma decode_step_positions:
  assumes "decode_step d = Inr (Continue d')" "out_pos d = total_decoded_count d"
  shows "out_pos d' = total_decoded_count d'"
  using assms
  by (auto simp: decode_step_def Let_def split: sum.splits if_splits prod.splits)

lemma steps_to_positions:
  "steps_to d d' \<Longrightarrow> out_pos d = total_decoded_count d \<Longrightarrow> out_pos d' = total_decoded_count d'"
  by (induction rule: steps_to.induct) (auto dest: decode_step_positions)

lemma decode_loop_sentinel:
  assumes "stream d = replicate 24 True @ rest"
  shows "decode_loop d = Inr (d\<lparr>stream := rest\<rparr>)"
proof -
  have "stream d \<noteq> []"
    using assms by (simp add: eval_nat_numeral)
  then show ?thesis
    using decode_step_sentinel [OF assms] by simp
qed

lemma decode_loop_raises:
  assumes "stream d \<noteq> []" "decode_step d = Inl e"
  shows "decode_loop d = Inl e"
  using assms by simp

lemma decompress_via_steps:
  assumes "read_rev 8 (concat (map bits_of_byte (map reverse_bits data))) = Inr (h, s0)"
    and "steps_to \<lparr>stream = s0, out = replicate buffer_size 0, out_pos = 0,
                    total_decoded_count = 0\<rparr> d"
  shows "decompress data buffer_size =
           (case decode_loop d of
              Inl e \<Rightarrow> Inl e
            | Inr d' \<Rightarrow> Inr (take (total_decoded_count d') (out d')))"
  using assms(1) steps_to_decode_loop [OF assms(2)] by (simp add: decompress_def)

subsection \<open>The copy loop\<close>

lemma np_index_nat: "j < n \<Longrightarrow> np_index n (int j) = Inr j"
  by (simp add: np_index_def)

lemma copy_loop_in_bounds:
  assumes "0 < off" "off \<le> p" "p + i + n \<le> length xs"
  shows "\<exists>ys. copy_loop n i p (int p - int off) xs = Inr ys
           \<and> length ys = length xs
           \<and> (\<forall>j<p + i. ys ! j = xs ! j)
           \<and> (\<forall>t. i \<le> t \<and> t < i + n \<longrightarrow> ys ! (p + t) = ys ! (p + t - off))
           \<and> (\<forall>j. p + i + n \<le> j \<longrightarrow> ys ! j = xs ! j)"
  using assms
proof (induction n arbitrary: i xs)
  case 0
  then show ?case by auto
next
  case (Suc n)
  let ?src = "p + i - off"
  let ?xs1 = "xs[p + i := xs ! ?src]"
  have src: "int p - int off + int i = int ?src"
    using Suc.prems by simp
  have "?src < length xs"
    using Suc.prems by simp
  then have "np_getitem xs (int ?src) = Inr (xs ! ?src)"
    unfolding np_getitem_def by (simp only: np_index_nat sum.case)
  then have get: "np_getitem xs (int p - int off + int i) = Inr (xs ! ?src)"
    unfolding src .
  have "p + i < length xs"
    using Suc.prems by simp
  then have set: "np_setitem xs (int (p + i)) (xs ! ?src) = Inr ?xs1"
    unfolding np_setitem_def by (simp only: np_index_nat sum.case)
  have step: "copy_loop (Suc n) i p (int p - int off) xs = copy_loop n (i + 1) p (int p - int off) ?xs1"
    by (simp only: copy_loop.simps get set sum.case)
  have "p + (i + 1) + n \<le> length ?xs1"
    using Suc.prems by simp
  from Suc.IH [OF Suc.prems(1) Suc.prems(2) this]
  obtain ys where ys: "copy_loop n (i + 1) p (int p - int off) ?xs1 = Inr ys"
    and len: "length ys = length ?xs1"
    and before: "\<forall>j<p + (i + 1). ys ! j = ?xs1 ! j"
    and copied: "\<forall>t. i + 1 \<le> t \<and> t < i + 1 + n \<longrightarrow> ys ! (p + t) = ys ! (p + t - off)"
    and after: "\<forall>j. p + (i + 1) + n \<le> j \<longrightarrow> ys ! j = ?xs1 ! j"
    by blast
  have b': "\<forall>j<p + i. ys ! j = xs ! j"
    using before by auto
  have here: "ys ! (p + i) = ys ! (p + i - off)"
  proof -
    have "ys ! (p + i) = ?xs1 ! (p + i)"
      using before by simp
    also have "\<dots> = xs ! ?src"
      using Suc.prems by simp
    also have "\<dots> = ys ! ?src"
      using b' Suc.prems by simp
    finally show ?thesis .
  qed
  have c': "\<forall>t. i \<le> t \<and> t < i + Suc n \<longrightarrow> ys ! (p + t) = ys ! (p + t - off)"
  proof (intro allI impI)
    fix t assume t: "i \<le> t \<and> t < i + Suc n"
    show "ys ! (p + t) = ys ! (p + t - off)"
    proof (cases "t = i")
      case True
      then show ?thesis using here by simp
    next
      case False
      then show ?thesis using t copied by simp
    qed
  qed
  have a': "\<forall>j. p + i + Suc n \<le> j \<longrightarrow> ys ! j = xs ! j"
    using after by auto
  show ?case
    using step ys len b' c' a' by simp
qed

lemma copy_loop_error: "copy_loop n i p s xs = Inl e \<Longrightarrow> e = IndexError"
proof (induction n arbitrary: i xs)
  case 0
  then show ?case by simp
next
  case (Suc n)
  then show ?case
    by (auto simp: np_getitem_def np_setitem_def np_index_def Let_def split: sum.splits if_splits)
qed

subsection \<open>The example streams\<close>

lemma replicate_8_False: "replicate 8 False = [False, False, False, False, False, False, False, False]"
  by (simp add: eval_nat_numeral)

lemma replicate_6_False: "replicate 6 False = [False, False, False, False, False, False]"
  by (simp add: eval_nat_numeral)

lemma replicate_12_True:
  "replicate 12 True = [True, True, True, True, True, True, True, True, True, True, True, True]"
  by (simp add: eval_nat_numeral)

lemma replicate_24_True:
  "replicate 24 True = replicate 12 True @ replicate 12 True"
  by (simp add: replicate_add [symmetric])

lemma example_reversed:
  "map reverse_bits example_data = [0x0, 0x2a, 0xc0, 0x63, 0xff, 0xff, 0xff, 0x48]"
  by (simp add: example_data_def reverse_bits_def Let_def)

lemma corrupt_reversed:
  "map reverse_bits corrupt_data = [0x0, 0x80, 0xff, 0xf0]"
  by (simp add: corrupt_data_def reverse_bits_def Let_def)

lemma example_stream:
  "concat (map bits_of_byte (map reverse_bits example_data))
     = replicate 8 False @ False # [False, True, False, True, False, True, False, True]
       @ stream example_copy_state"
proof -
  have "concat (map bits_of_byte (map reverse_bits example_data)) =
      [False, False, False, False, False, False, False, False]
      @ [False, False, True, False, True, False, True, False]
      @ [True, True, False, False, False, False, False, False]
      @ [False, True, True, False, False, False, True, True]
      @ [True, True, True, True, True, True, True, True]
      @ [True, True, True, True, True, True, True, True]
      @ [True, True, True, True, True, True, True, True]
      @ [False, True, False, False, True, False, False, False]"
    unfolding example_reversed by (simp add: bits_of_byte_def)
  moreover have "replicate 8 False @ False # [False, True, False, True, False, True, False, True]
       @ stream example_copy_state =
      [False, False, False, False, False, False, False, False]
      @ [False, False, True, False, True, False, True, False]
      @ [True, True, False, False, False, False, False, False]
      @ [False, True, True, False, False, False, True, True]
      @ [True, True, True, True, True, True, True, True]
      @ [True, True, True, True, True, True, True, True]
      @ [True, True, True, True, True, True, True, True]
      @ [False, True, False, False, True, False, False, False]"
    by (simp add: example_copy_state_def example_tail_def unary_run_def replicate_8_False
        replicate_6_False replicate_24_True replicate_12_True numeral_2_eq_2)
  ultimately show ?thesis by simp
qed

lemma corrupt_stream:
  "concat (map bits_of_byte (map reverse_bits corrupt_data))
     = replicate 8 False @ True # unary_run 3 0 @ replicate 6 False @ unary_run 12 12
       @ [False, False, False, False]"
proof -
  have "concat (map bits_of_byte (map reverse_bits corrupt_data)) =
      [False, False, False, False, False, False, False, False]
      @ [True, False, False, False, False, False, False, False]
      @ [True, True, True, True, True, True, True, True]
      @ [True, True, True, True, False, False, False, False]"
    unfolding corrupt_reversed by (simp add: bits_of_byte_def)
  moreover have "replicate 8 False @ True # unary_run 3 0 @ replicate 6 False @ unary_run 12 12
       @ [False, False, False, False] =
      [False, False, False, False, False, False, False, False]
      @ [True, False, False, False, False, False, False, False]
      @ [True, True, True, True, True, True, True, True]
      @ [True, True, True, True, False, False, False, False]"
    by (simp add: unary_run_def replicate_8_False replicate_6_False replicate_12_True)
  ultimately show ?thesis by simp
qed

lemma example_header:
  "read_rev 8 (concat (map bits_of_byte (map reverse_bits example_data)))
     = Inr (0, False # [False, True, False, True, False, True, False, True]
               @ stream example_copy_state)"
proof -
  have "read_rev 8 (replicate 8 False @ False # [False, True, False, True, False, True, False, True]
               @ stream example_copy_state)
        = Inr (bits_value (replicate 8 False), False # [False, True, False, True, False, True, False, True]
               @ stream example_copy_state)"
    by (rule read_rev_bits) simp
  moreover have "bits_value (replicate 8 False) = 0"
    by (rule bits_value_replicate_False)
  ultimately show ?thesis
    by (simp only: example_stream)
qed

lemma corrupt_header:
  "read_rev 8 (concat (map bits_of_byte (map reverse_bits corrupt_data)))
     = Inr (0, True # unary_run 3 0 @ replicate 6 False @ unary_run 12 12
               @ [False, False, False, False])"
proof -
  have "read_rev 8 (replicate 8 False @ True # unary_run 3 0 @ replicate 6 False @ unary_run 12 12
               @ [False, False, False, False])
        = Inr (bits_value (replicate 8 False), True # unary_run 3 0 @ replicate 6 False @ unary_run 12 12
               @ [False, False, False, False])"
    by (rule read_rev_bits) simp
  moreover have "bits_value (replicate 8 False) = 0"
    by (rule bits_value_replicate_False)
  ultimately show ?thesis
    by (simp only: corrupt_stream)
qed

lemma example_literal_step:
  "decode_step \<lparr>stream = False # [False, True, False, True, False, True, False, True]
                          @ stream example_copy_state,
                 out = replicate 6 0, out_pos = 0, total_decoded_count = 0\<rparr>
     = Inr (Continue example_copy_state)"
proof -
  let ?d = "\<lparr>stream = False # [False, True, False, True, False, True, False, True]
                          @ stream example_copy_state,
                 out = replicate 6 (0 :: byte), out_pos = 0, total_decoded_count = 0\<rparr>"
  have "decode_step ?d =
           Inr (Continue \<lparr>stream = stream example_copy_state,
                  out = (out ?d)[out_pos ?d := of_nat (bits_value [False, True, False, True, False, True, False, True])],
                  out_pos = out_pos ?d + 1,
                  total_decoded_count = total_decoded_count ?d + 1\<rparr>)"
    by (rule decode_step_literal) simp_all
  then show ?thesis
    by (simp add: example_copy_state_def eval_nat_numeral)
qed

lemma example_copy_length: "copy_length 0 2 [False, False] = 5"
  by (simp add: copy_length_def)

lemma example_copy_loop:
  "copy_loop 5 0 1 0 [0xAA, 0, 0, 0, 0, 0] = Inr (replicate 6 0xAA)"
  by (simp add: eval_nat_numeral np_getitem_def np_setitem_def np_index_def)

lemma example_copy_step: "decode_step example_copy_state = Inr (Continue example_final_state)"
proof -
  have bits: "stream example_copy_state =
      True # unary_run 3 0 @ replicate 6 False @ unary_run 12 2 @ [False, False]
        @ replicate 24 True @ example_tail"
    by (simp add: example_copy_state_def)
  have "decode_step example_copy_state =
           (if (2 :: nat) = 12 then Inl AssertionError
            else case copy_loop (copy_length 0 2 [False, False]) 0 (out_pos example_copy_state)
                        (int (total_decoded_count example_copy_state)
                           - int (bits_value (replicate 6 False) + OFFSET_TO_ADD ! 0))
                        (out example_copy_state) of
                   Inl e \<Rightarrow> Inl e
                 | Inr out' \<Rightarrow>
                     Inr (Continue \<lparr>stream = replicate 24 True @ example_tail, out = out',
                            out_pos = out_pos example_copy_state + copy_length 0 2 [False, False],
                            total_decoded_count = total_decoded_count example_copy_state
                               + copy_length 0 2 [False, False]\<rparr>))"
    by (rule decode_step_back_reference [OF bits]) (simp_all add: VALUE_BIT_COUNT_def)
  moreover have "out_pos example_copy_state = 1" "total_decoded_count example_copy_state = 1"
    "out example_copy_state = [0xAA, 0, 0, 0, 0, 0]"
    by (simp_all add: example_copy_state_def)
  moreover have "int 1 - int (bits_value (replicate 6 False) + OFFSET_TO_ADD ! 0) = 0"
    by (simp add: bits_value_replicate_False OFFSET_TO_ADD_def)
  moreover have "copy_loop 5 0 (Suc 0) 0 [0xAA, 0, 0, 0, 0, 0] = Inr (replicate 6 (0xAA :: byte))"
    using example_copy_loop by simp
  ultimately show ?thesis
    by (simp add: example_copy_length example_final_state_def)
qed

lemma example_run_literal:
  "steps_to \<lparr>stream = False # [False, True, False, True, False, True, False, True]
                          @ stream example_copy_state,
               out = replicate 6 0, out_pos = 0, total_decoded_count = 0\<rparr> example_copy_state"
  using example_literal_step steps_refl by (rule steps_step)

lemma example_run:
  "steps_to \<lparr>stream = False # [False, True, False, True, False, True, False, True]
                          @ stream example_copy_state,
               out = replicate 6 0, out_pos = 0, total_decoded_count = 0\<rparr> example_final_state"
proof -
  have "steps_to example_copy_state example_final_state"
    using example_copy_step steps_refl by (rule steps_step)
  with example_literal_step show ?thesis by (rule steps_step)
qed

lemma replicate_6_True: "replicate 6 True = [True, True, True, True, True, True]"
  by (simp add: eval_nat_numeral)

lemma wrap_reversed: "map reverse_bits wrap_data = [0x00, 0x42, 0xD8, 0x3F, 0xFF, 0xFF, 0xFF]"
  by (simp add: wrap_data_def reverse_bits_def Let_def)

lemma wrap_stream:
  "concat (map bits_of_byte (map reverse_bits wrap_data))
     = replicate 8 False @ False # wrap_literal @ wrap_copy_stream"
proof -
  have "concat (map bits_of_byte (map reverse_bits wrap_data)) =
      [False, False, False, False, False, False, False, False]
      @ [False, True, False, False, False, False, True, False]
      @ [True, True, False, True, True, False, False, False]
      @ [False, False, True, True, True, True, True, True]
      @ [True, True, True, True, True, True, True, True]
      @ [True, True, True, True, True, True, True, True]
      @ [True, True, True, True, True, True, True, True]"
    unfolding wrap_reversed by (simp add: bits_of_byte_def)
  moreover have "replicate 8 False @ False # wrap_literal @ wrap_copy_stream =
      [False, False, False, False, False, False, False, False]
      @ [False, True, False, False, False, False, True, False]
      @ [True, True, False, True, True, False, False, False]
      @ [False, False, True, True, True, True, True, True]
      @ [True, True, True, True, True, True, True, True]
      @ [True, True, True, True, True, True, True, True]
      @ [True, True, True, True, True, True, True, True]"
    by (simp add: wrap_literal_def wrap_copy_stream_def unary_run_def replicate_8_False
        replicate_6_True replicate_24_True replicate_12_True)
  ultimately show ?thesis by simp
qed

lemma wrap_header:
  "read_rev 8 (concat (map bits_of_byte (map reverse_bits wrap_data)))
     = Inr (0, False # wrap_literal @ wrap_copy_stream)"
proof -
  have "read_rev 8 (replicate 8 False @ False # wrap_literal @ wrap_copy_stream)
        = Inr (bits_value (replicate 8 False), False # wrap_literal @ wrap_copy_stream)"
    by (rule read_rev_bits) simp
  moreover have "bits_value (replicate 8 False) = 0"
    by (rule bits_value_replicate_False)
  ultimately show ?thesis
    by (simp only: wrap_stream)
qed

lemma wrap_literal_step:
  assumes "0 < n"
  shows "decode_step \<lparr>stream = False # wrap_literal @ wrap_copy_stream, out = replicate n 0,
                      out_pos = 0, total_decoded_count = 0\<rparr>
     = Inr (Continue \<lparr>stream = wrap_copy_stream, out = (replicate n 0)[0 := 0xA1],
              out_pos = 1, total_decoded_count = 1\<rparr>)"
proof -
  let ?d = "\<lparr>stream = False # wrap_literal @ wrap_copy_stream, out = replicate n (0 :: byte),
             out_pos = 0, total_decoded_count = 0\<rparr>"
  have "decode_step ?d =
           Inr (Continue \<lparr>stream = wrap_copy_stream,
                  out = (out ?d)[out_pos ?d := of_nat (bits_value wrap_literal)],
                  out_pos = out_pos ?d + 1,
                  total_decoded_count = total_decoded_count ?d + 1\<rparr>)"
    using assms by (intro decode_step_literal) (simp_all add: wrap_literal_def)
  moreover have "bits_value wrap_literal = 161"
    by (simp add: wrap_literal_def)
  ultimately show ?thesis
    by simp
qed

lemma wrap_copy_step:
  "decode_step \<lparr>stream = wrap_copy_stream, out = xs, out_pos = 1, total_decoded_count = 1\<rparr>
     = (case copy_loop 2 0 1 (- 3) xs of
          Inl e \<Rightarrow> Inl e
        | Inr out' \<Rightarrow>
            Inr (Continue \<lparr>stream = replicate 24 True @ replicate 6 True, out = out',
                   out_pos = 3, total_decoded_count = 3\<rparr>))"
proof -
  let ?d = "\<lparr>stream = wrap_copy_stream, out = xs, out_pos = 1, total_decoded_count = 1\<rparr>"
  have bits: "stream ?d =
      True # unary_run 3 0 @ [True, True, False, False, False, False] @ unary_run 12 0 @ []
        @ replicate 24 True @ replicate 6 True"
    by (simp add: wrap_copy_stream_def)
  have "decode_step ?d =
           (if (0 :: nat) = 12 then Inl AssertionError
            else case copy_loop (copy_length 0 0 []) 0 (out_pos ?d)
                        (int (total_decoded_count ?d)
                           - int (bits_value [True, True, False, False, False, False]
                                  + OFFSET_TO_ADD ! 0))
                        (out ?d) of
                   Inl e \<Rightarrow> Inl e
                 | Inr out' \<Rightarrow>
                     Inr (Continue \<lparr>stream = replicate 24 True @ replicate 6 True, out = out',
                            out_pos = out_pos ?d + copy_length 0 0 [],
                            total_decoded_count = total_decoded_count ?d + copy_length 0 0 []\<rparr>))"
    by (rule decode_step_back_reference [OF bits]) (simp_all add: VALUE_BIT_COUNT_def)
  moreover have "copy_length 0 0 [] = 2"
    by (simp add: copy_length_def)
  moreover have "int 1 - int (bits_value [True, True, False, False, False, False] + OFFSET_TO_ADD ! 0) = - 3"
    by (simp add: OFFSET_TO_ADD_def)
  ultimately show ?thesis
    by (simp add: numeral_3_eq_3 cong: sum.case_cong)
qed

lemma wrap_decompress:
  assumes "0 < n"
  shows "decompress wrap_data n =
           (case copy_loop 2 0 1 (- 3) ((replicate n 0)[0 := 0xA1]) of
              Inl e \<Rightarrow> Inl e
            | Inr out' \<Rightarrow> Inr (take 3 out'))"
proof -
  let ?d1 = "\<lparr>stream = wrap_copy_stream, out = (replicate n (0 :: byte))[0 := 0xA1],
              out_pos = 1, total_decoded_count = 1\<rparr>"
  have run: "steps_to \<lparr>stream = False # wrap_literal @ wrap_copy_stream, out = replicate n 0,
                         out_pos = 0, total_decoded_count = 0\<rparr> ?d1"
    using wrap_literal_step [OF assms] steps_refl by (rule steps_step)
  have ne: "stream ?d1 \<noteq> []"
    by (simp add: wrap_copy_stream_def)
  have loop: "decode_loop ?d1 =
           (case copy_loop 2 0 1 (- 3) ((replicate n 0)[0 := 0xA1]) of
              Inl e \<Rightarrow> Inl e
            | Inr out' \<Rightarrow>
                Inr \<lparr>stream = replicate 6 True, out = out', out_pos = 3, total_decoded_count = 3\<rparr>)"
  proof (cases "copy_loop 2 0 1 (- 3) ((replicate n 0)[0 := 0xA1 :: byte])")
    case (Inl e)
    then have "decode_step ?d1 = Inl e"
      using wrap_copy_step [of "(replicate n 0)[0 := 0xA1]"] by simp
    with ne have "decode_loop ?d1 = Inl e"
      by (rule decode_loop_raises)
    with Inl show ?thesis by simp
  next
    case (Inr out')
    let ?d2 = "\<lparr>stream = replicate 24 True @ replicate 6 True, out = out', out_pos = 3,
                total_decoded_count = 3\<rparr>"
    have "decode_step ?d1 = Inr (Continue ?d2)"
      using Inr wrap_copy_step [of "(replicate n 0)[0 := 0xA1]"] by simp
    with ne have "decode_loop ?d1 = decode_loop ?d2"
      by simp
    also have "\<dots> = Inr (?d2\<lparr>stream := replicate 6 True\<rparr>)"
      by (rule decode_loop_sentinel) simp
    finally show ?thesis
      using Inr by simp
  qed
  show ?thesis
    unfolding decompress_via_steps [OF wrap_header run] loop
    by (simp split: sum.splits)
qed

subsection \<open>Back-references\<close>

text \<open>
  C1, as stated, fails: a back-reference step does not always copy from output position
  \<open>pos - offset\<close>. In \<open>wrap_data\<close> the copy at position 1 has offset 4 and length 2, so that
  the source index is -3, which counts from the end of the output buffer: with a buffer of
  3 bytes the step appends A1 A1, with a buffer of 4 bytes it appends 00 00, and with a
  buffer of 2 bytes it raises IndexError.
\<close>

theorem back_reference_bounds_counterexample:
  "decompress wrap_data 3 = Inr [0xA1, 0xA1, 0xA1]
   \<and> decompress wrap_data 4 = Inr [0xA1, 0, 0]
   \<and> decompress wrap_data 2 = Inl IndexError"
proof -
  have c3: "copy_loop 2 0 1 (- 3) [0xA1, 0, 0] = Inr [0xA1, 0xA1, 0xA1 :: byte]"
    by (simp add: eval_nat_numeral np_getitem_def np_setitem_def np_index_def)
  have c4: "copy_loop 2 0 1 (- 3) [0xA1, 0, 0, 0] = Inr [0xA1, 0, 0, 0 :: byte]"
    by (simp add: eval_nat_numeral np_getitem_def np_setitem_def np_index_def)
  have c2: "copy_loop 2 0 1 (- 3) [0xA1, 0 :: byte] = Inl IndexError"
    by (simp add: eval_nat_numeral np_getitem_def np_setitem_def np_index_def)
  have r3: "(replicate 3 0)[0 := 0xA1] = [0xA1, 0, 0 :: byte]"
    by (simp add: eval_nat_numeral)
  have r4: "(replicate 4 0)[0 := 0xA1] = [0xA1, 0, 0, 0 :: byte]"
    by (simp add: eval_nat_numeral)
  have r2: "(replicate 2 0)[0 := 0xA1] = [0xA1, 0 :: byte]"
    by (simp add: eval_nat_numeral)
  have "decompress wrap_data 3 = Inr [0xA1, 0xA1, 0xA1]"
    using wrap_decompress [of 3] c3 by (simp add: r3)
  moreover have "decompress wrap_data 4 = Inr [0xA1, 0, 0]"
    using wrap_decompress [of 4] c4 by (simp add: r4)
  moreover have "decompress wrap_data 2 = Inl IndexError"
    using wrap_decompress [of 2] c2 by (simp add: r2)
  ultimately show ?thesis by simp
qed

text \<open>
  C1, amended: a back-reference step (flag bit 1) with first unary run \<open>k \<le> 3\<close>, an offset field of
  \<open>VALUE_BIT_COUNT ! k\<close> reversed bits that is not the end marker, and second unary run
  \<open>m < 12\<close> copies exactly \<open>copy_length k m extra\<close> bytes, that is the minimum length (2, or 3
  for the 20-bit field) plus \<open>(2^m - 1) + read_rev(m)\<close>, one byte at a time from position
  \<open>pos - (offset_field + OFFSET_TO_ADD ! k)\<close> to position \<open>pos\<close>: every copied byte equals the
  byte that lies the offset before it in the output as it is after the copy, so a copy
  longer than its offset repeats a pattern, and with offset 1 every copied byte is the
  byte before the copy. This holds for a step whose source position is not before the
  start of the output (the offset is at most \<open>pos\<close>) and whose copy fits the output buffer
  (\<open>pos\<close> plus the length is at most the buffer size).
\<close>

theorem back_reference_copies:
  assumes bits: "stream d = True # unary_run 3 k @ field @ unary_run 12 m @ extra @ rest"
    and k: "k \<le> 3" and field: "length field = VALUE_BIT_COUNT ! k"
    and ns: "\<not> (k = 3 \<and> bits_value field = 0xFFFFF)"
    and m: "m < 12" and extra: "length extra = m"
    and inv: "out_pos d = total_decoded_count d"
    and src: "bits_value field + OFFSET_TO_ADD ! k \<le> total_decoded_count d"
    and room: "total_decoded_count d + copy_length k m extra \<le> length (out d)"
  shows "\<exists>out'.
           decode_step d =
             Inr (Continue \<lparr>stream = rest, out = out',
                    out_pos = out_pos d + copy_length k m extra,
                    total_decoded_count = total_decoded_count d + copy_length k m extra\<rparr>)
         \<and> length out' = length (out d)
         \<and> (\<forall>j<total_decoded_count d. out' ! j = out d ! j)
         \<and> (\<forall>i<copy_length k m extra.
               out' ! (total_decoded_count d + i)
                 = out' ! (total_decoded_count d + i - (bits_value field + OFFSET_TO_ADD ! k)))
         \<and> (\<forall>j. total_decoded_count d + copy_length k m extra \<le> j \<longrightarrow> out' ! j = out d ! j)
         \<and> (bits_value field + OFFSET_TO_ADD ! k = 1 \<longrightarrow>
               (\<forall>i<copy_length k m extra.
                  out' ! (total_decoded_count d + i) = out d ! (total_decoded_count d - 1)))"
proof -
  let ?L = "copy_length k m extra"
  let ?off = "bits_value field + OFFSET_TO_ADD ! k"
  let ?p = "total_decoded_count d"
  have off: "0 < ?off"
    using OFFSET_TO_ADD_pos [OF k] by simp
  have room': "?p + 0 + ?L \<le> length (out d)"
    using room by simp
  from copy_loop_in_bounds [OF off src room']
  obtain ys where ys: "copy_loop ?L 0 ?p (int ?p - int ?off) (out d) = Inr ys"
    and len: "length ys = length (out d)"
    and before: "\<forall>j<?p + 0. ys ! j = out d ! j"
    and copied: "\<forall>t. 0 \<le> t \<and> t < 0 + ?L \<longrightarrow> ys ! (?p + t) = ys ! (?p + t - ?off)"
    and after: "\<forall>j. ?p + 0 + ?L \<le> j \<longrightarrow> ys ! j = out d ! j"
    by blast
  have step: "decode_step d =
             Inr (Continue \<lparr>stream = rest, out = ys, out_pos = out_pos d + ?L,
                    total_decoded_count = ?p + ?L\<rparr>)"
    using decode_step_back_reference [OF bits k field ns] m extra ys inv
    by simp
  have cp: "ys ! (?p + t) = ys ! (?p + t - ?off)" if "t < ?L" for t
    using copied that by simp
  have bf: "ys ! j = out d ! j" if "j < ?p" for j
    using before that by simp
  have run: "ys ! (?p + i) = out d ! (?p - 1)" if one: "?off = 1" and i: "i < ?L" for i
    using i
  proof (induction i)
    case 0
    have "ys ! (?p + 0) = ys ! (?p + 0 - ?off)"
      using 0 by (rule cp)
    also have "\<dots> = ys ! (?p - 1)"
      using one by simp
    also have "\<dots> = out d ! (?p - 1)"
      using src one by (intro bf) simp
    finally show ?case .
  next
    case (Suc i)
    have "ys ! (?p + Suc i) = ys ! (?p + Suc i - ?off)"
      using Suc.prems by (rule cp)
    also have "\<dots> = ys ! (?p + i)"
      using one by simp
    also have "\<dots> = out d ! (?p - 1)"
      using Suc by simp
    finally show ?case .
  qed
  show ?thesis
    using step len bf cp after run by (intro exI [of _ ys]) simp
qed

theorem back_reference_copies_witness:
  "\<exists>out'. decode_step example_copy_state =
             Inr (Continue \<lparr>stream = replicate 24 True @ example_tail, out = out',
                    out_pos = 6, total_decoded_count = 6\<rparr>)
         \<and> length out' = 6
         \<and> out' ! 0 = 0xAA
         \<and> (\<forall>i<5. out' ! (1 + i) = 0xAA)"
proof -
  have bits: "stream example_copy_state =
      True # unary_run 3 0 @ replicate 6 False @ unary_run 12 2 @ [False, False]
        @ replicate 24 True @ example_tail"
    by (simp add: example_copy_state_def)
  have k: "(0 :: nat) \<le> 3" and m: "(2 :: nat) < 12" and extra: "length [False, False] = 2"
    by simp_all
  have field: "length (replicate 6 False) = VALUE_BIT_COUNT ! 0"
    by (simp add: VALUE_BIT_COUNT_def)
  have ns: "\<not> ((0 :: nat) = 3 \<and> bits_value (replicate 6 False) = 0xFFFFF)"
    by simp
  have inv: "out_pos example_copy_state = total_decoded_count example_copy_state"
    by (simp add: example_copy_state_def)
  have off: "bits_value (replicate 6 False) + OFFSET_TO_ADD ! 0 = 1"
    by (simp add: bits_value_replicate_False OFFSET_TO_ADD_def)
  have src: "bits_value (replicate 6 False) + OFFSET_TO_ADD ! 0 \<le> total_decoded_count example_copy_state"
    unfolding off by (simp add: example_copy_state_def)
  have room: "total_decoded_count example_copy_state + copy_length 0 2 [False, False]
                \<le> length (out example_copy_state)"
    by (simp add: example_copy_length example_copy_state_def)
  have vals: "out_pos example_copy_state = 1" "total_decoded_count example_copy_state = 1"
    "out example_copy_state = [0xAA, 0, 0, 0, 0, 0]"
    by (simp_all add: example_copy_state_def)
  from back_reference_copies [OF bits k field ns m extra inv src room]
  show ?thesis
    unfolding off example_copy_length vals by auto
qed

subsection \<open>The end-of-stream marker\<close>

text \<open>
  C4: when the loop of \<open>decompress\<close> comes to a back-reference step that reads
  \<open>value_bit_count = 20\<close> and \<open>offset_field = 0xFFFFF\<close> (the flag bit, three one-bits and twenty
  one-bits), decoding stops there: the step is the \<open>break\<close>, nothing of the remaining input
  is read, and \<open>decompress\<close> returns exactly the bytes produced before the marker.
\<close>

theorem decompress_sentinel_stops:
  assumes header: "read_rev 8 (concat (map bits_of_byte (map reverse_bits data))) = Inr (h, s0)"
    and run: "steps_to \<lparr>stream = s0, out = replicate buffer_size 0, out_pos = 0,
                         total_decoded_count = 0\<rparr> d"
    and marker: "stream d = replicate 24 True @ rest"
  shows "decode_step d = Inr (Break (d\<lparr>stream := rest\<rparr>))
       \<and> decode_loop d = Inr (d\<lparr>stream := rest\<rparr>)
       \<and> decompress data buffer_size = Inr (take (total_decoded_count d) (out d))"
proof -
  have brk: "decode_step d = Inr (Break (d\<lparr>stream := rest\<rparr>))"
    using marker by (rule decode_step_sentinel)
  have "stream d \<noteq> []"
    using marker by (simp add: eval_nat_numeral)
  then have loop: "decode_loop d = Inr (d\<lparr>stream := rest\<rparr>)"
    using brk by simp
  have "decode_loop \<lparr>stream = s0, out = replicate buffer_size 0, out_pos = 0,
                      total_decoded_count = 0\<rparr> = Inr (d\<lparr>stream := rest\<rparr>)"
    using steps_to_decode_loop [OF run] loop by simp
  then have "decompress data buffer_size = Inr (take (total_decoded_count d) (out d))"
    using header by (simp add: decompress_def)
  with brk loop show ?thesis by simp
qed

theorem decompress_sentinel_stops_witness:
  "decompress example_data 6 = Inr (replicate 6 0xAA)
   \<and> decode_step example_final_state = Inr (Break (example_final_state\<lparr>stream := example_tail\<rparr>))"
proof -
  have marker: "stream example_final_state = replicate 24 True @ example_tail"
    by (simp add: example_final_state_def)
  have "total_decoded_count example_final_state = 6" "out example_final_state = replicate 6 0xAA"
    by (simp_all add: example_final_state_def)
  then show ?thesis
    using decompress_sentinel_stops [OF example_header example_run marker] by simp
qed

subsection \<open>The limit of the second unary run\<close>

text \<open>
  C5: when the second unary run of a back-reference step reaches the maximal length
  \<open>m = 12\<close>, the step raises (the assertion fails) and \<open>decompress\<close> returns no result; for
  \<open>m < 12\<close> the step does not raise the assertion error and goes on to copy
  \<open>copy_length k m extra\<close> bytes, the extra length being \<open>(2^m - 1) + read_rev(m)\<close>.
\<close>

theorem secondary_run_limit:
  assumes header: "read_rev 8 (concat (map bits_of_byte (map reverse_bits data))) = Inr (h, s0)"
    and run: "steps_to \<lparr>stream = s0, out = replicate buffer_size 0, out_pos = 0,
                         total_decoded_count = 0\<rparr> d"
    and bits: "stream d = True # unary_run 3 k @ field @ unary_run 12 m @ extra @ rest"
    and k: "k \<le> 3" and field: "length field = VALUE_BIT_COUNT ! k"
    and ns: "\<not> (k = 3 \<and> bits_value field = 0xFFFFF)"
    and m: "m \<le> 12" and extra: "m < 12 \<Longrightarrow> length extra = m"
  shows "(m = 12 \<longrightarrow>
            decode_step d = Inl AssertionError
          \<and> decompress data buffer_size = Inl AssertionError)
       \<and> (m < 12 \<longrightarrow>
            decode_step d =
              (case copy_loop (copy_length k m extra) 0 (out_pos d)
                      (int (total_decoded_count d) - int (bits_value field + OFFSET_TO_ADD ! k))
                      (out d) of
                 Inl e \<Rightarrow> Inl e
               | Inr out' \<Rightarrow>
                   Inr (Continue \<lparr>stream = rest, out = out',
                          out_pos = out_pos d + copy_length k m extra,
                          total_decoded_count = total_decoded_count d + copy_length k m extra\<rparr>))
          \<and> decode_step d \<noteq> Inl AssertionError)"
proof -
  note step = decode_step_back_reference [OF bits k field ns m extra]
  have fatal: "decompress data buffer_size = Inl AssertionError" if "m = 12"
  proof -
    have s: "decode_step d = Inl AssertionError"
      using step that by simp
    have "stream d \<noteq> []"
      using bits by simp
    then have "decode_loop d = Inl AssertionError"
      using s by simp
    then have "decode_loop \<lparr>stream = s0, out = replicate buffer_size 0, out_pos = 0,
                      total_decoded_count = 0\<rparr> = Inl AssertionError"
      using steps_to_decode_loop [OF run] by simp
    then show ?thesis
      using header by (simp add: decompress_def)
  qed
  have no_assert: "decode_step d \<noteq> Inl AssertionError" if "m < 12"
  proof
    assume a: "decode_step d = Inl AssertionError"
    have "m \<noteq> 12" using that by simp
    with step a have "copy_loop (copy_length k m extra) 0 (out_pos d)
                      (int (total_decoded_count d) - int (bits_value field + OFFSET_TO_ADD ! k))
                      (out d) = Inl AssertionError"
      by (simp split: sum.splits)
    then show False
      using copy_loop_error by blast
  qed
  show ?thesis
    using step fatal no_assert by simp
qed

theorem secondary_run_limit_witness:
  "decompress corrupt_data 4 = Inl AssertionError
   \<and> decode_step example_copy_state \<noteq> Inl AssertionError"
proof -
  let ?d0 = "\<lparr>stream = True # unary_run 3 0 @ replicate 6 False @ unary_run 12 12
               @ [False, False, False, False],
              out = replicate 4 (0 :: byte), out_pos = 0, total_decoded_count = 0\<rparr>"
  have run0: "steps_to ?d0 ?d0"
    by (rule steps_refl)
  have bits0: "stream ?d0 = True # unary_run 3 0 @ replicate 6 False @ unary_run 12 12
               @ [] @ [False, False, False, False]"
    by simp
  have field: "length (replicate 6 False) = VALUE_BIT_COUNT ! 0"
    by (simp add: VALUE_BIT_COUNT_def)
  have ns: "\<not> ((0 :: nat) = 3 \<and> bits_value (replicate 6 False) = 0xFFFFF)"
    by simp
  have a: "decompress corrupt_data 4 = Inl AssertionError"
    using secondary_run_limit [OF corrupt_header run0 bits0 _ field ns] by simp
  have bits: "stream example_copy_state =
      True # unary_run 3 0 @ replicate 6 False @ unary_run 12 2 @ [False, False]
        @ replicate 24 True @ example_tail"
    by (simp add: example_copy_state_def)
  have k0: "(0 :: nat) \<le> 3" and m2: "(2 :: nat) \<le> 12" and lt: "(2 :: nat) < 12"
    and e2: "length [False, False] = 2"
    by simp_all
  have b: "decode_step example_copy_state \<noteq> Inl AssertionError"
    using secondary_run_limit [OF example_header example_run_literal bits k0 field ns m2 e2,
        THEN conjunct2] lt
    by blast
  from a b show ?thesis by simp
qed

section \<open>Image reconstruction\<close>

lemma decode_step_literal_overflow:
  assumes "stream d = False # bs @ rest" "length bs = 8" "length (out d) \<le> out_pos d"
  shows "decode_step d = Inl IndexError"
proof -
  have r: "read_rev 8 (bs @ rest) = Inr (bits_value bs, rest)"
    using assms(2) by (rule read_rev_bits)
  show ?thesis
    using assms(3) by (simp add: decode_step_def assms(1) read_bit_def r np_setitem_def np_index_def)
qed

lemma replicate_7_True: "replicate 7 True = [True, True, True, True, True, True, True]"
  by (simp add: eval_nat_numeral)

lemma wide_reversed: "map reverse_bits wide_data = [0x00, 0x2A, 0xC0, 0x7F, 0x3F, 0xFF, 0xFF, 0xFF]"
  by (simp add: wide_data_def reverse_bits_def Let_def)

lemma wide_stream:
  "concat (map bits_of_byte (map reverse_bits wide_data))
     = replicate 8 False @ False # wide_literal @ wide_copy_stream"
proof -
  have "concat (map bits_of_byte (map reverse_bits wide_data)) =
      [False, False, False, False, False, False, False, False]
      @ [False, False, True, False, True, False, True, False]
      @ [True, True, False, False, False, False, False, False]
      @ [False, True, True, True, True, True, True, True]
      @ [False, False, True, True, True, True, True, True]
      @ [True, True, True, True, True, True, True, True]
      @ [True, True, True, True, True, True, True, True]
      @ [True, True, True, True, True, True, True, True]"
    unfolding wide_reversed by (simp add: bits_of_byte_def)
  moreover have "replicate 8 False @ False # wide_literal @ wide_copy_stream =
      [False, False, False, False, False, False, False, False]
      @ [False, False, True, False, True, False, True, False]
      @ [True, True, False, False, False, False, False, False]
      @ [False, True, True, True, True, True, True, True]
      @ [False, False, True, True, True, True, True, True]
      @ [True, True, True, True, True, True, True, True]
      @ [True, True, True, True, True, True, True, True]
      @ [True, True, True, True, True, True, True, True]"
    by (simp add: wide_literal_def wide_copy_stream_def wide_extra_def unary_run_def
        replicate_8_False replicate_6_False replicate_7_True replicate_24_True replicate_12_True)
  ultimately show ?thesis by simp
qed

lemma wide_header:
  "read_rev 8 (concat (map bits_of_byte (map reverse_bits wide_data)))
     = Inr (0, False # wide_literal @ wide_copy_stream)"
proof -
  have "read_rev 8 (replicate 8 False @ False # wide_literal @ wide_copy_stream)
        = Inr (bits_value (replicate 8 False), False # wide_literal @ wide_copy_stream)"
    by (rule read_rev_bits) simp
  moreover have "bits_value (replicate 8 False) = 0"
    by (rule bits_value_replicate_False)
  ultimately show ?thesis
    by (simp only: wide_stream)
qed

lemma wide_no_room: "decompress wide_data 0 = Inl IndexError"
proof -
  let ?d = "\<lparr>stream = False # wide_literal @ wide_copy_stream,
             out = replicate 0 (0 :: byte), out_pos = 0, total_decoded_count = 0\<rparr>"
  have "decode_step ?d = Inl IndexError"
    by (rule decode_step_literal_overflow [where bs = wide_literal and rest = wide_copy_stream])
      (simp_all add: wide_literal_def)
  moreover have "stream ?d \<noteq> []"
    by simp
  ultimately have loop: "decode_loop ?d = Inl IndexError"
    by (intro decode_loop_raises)
  show ?thesis
    unfolding decompress_via_steps [OF wide_header steps_refl] loop by simp
qed

lemma wide_copy_length: "copy_length 0 7 wide_extra = 255"
  by (simp add: copy_length_def wide_extra_def)

lemma wide_full: "decompress wide_data 256 = Inr (replicate 256 0xAA)"
proof -
  let ?xs = "(replicate 256 (0 :: byte))[0 := 0xAA]"
  let ?d0 = "\<lparr>stream = False # wide_literal @ wide_copy_stream, out = replicate 256 (0 :: byte),
              out_pos = 0, total_decoded_count = 0\<rparr>"
  let ?d1 = "\<lparr>stream = wide_copy_stream, out = ?xs, out_pos = 1, total_decoded_count = 1\<rparr>"
  have "decode_step ?d0 =
           Inr (Continue \<lparr>stream = wide_copy_stream,
                  out = (out ?d0)[out_pos ?d0 := of_nat (bits_value wide_literal)],
                  out_pos = out_pos ?d0 + 1,
                  total_decoded_count = total_decoded_count ?d0 + 1\<rparr>)"
    by (intro decode_step_literal) (simp_all add: wide_literal_def)
  moreover have "bits_value wide_literal = 170"
    by (simp add: wide_literal_def)
  ultimately have s0: "decode_step ?d0 = Inr (Continue ?d1)"
    by simp
  have off: "(0 :: nat) < 1" and src: "(1 :: nat) \<le> 1" and room: "1 + 0 + 255 \<le> length ?xs"
    by simp_all
  from copy_loop_in_bounds [OF off src room]
  obtain ys where ys: "copy_loop 255 0 1 (int 1 - int 1) ?xs = Inr ys"
    and len: "length ys = length ?xs"
    and before: "\<forall>j<1 + 0. ys ! j = ?xs ! j"
    and copied: "\<forall>t. 0 \<le> t \<and> t < 0 + 255 \<longrightarrow> ys ! (1 + t) = ys ! (1 + t - 1)"
    by blast
  have first: "ys ! 0 = 0xAA"
    using before by simp
  have cp: "ys ! (1 + t) = ys ! t" if "t < 255" for t
    using copied [rule_format, of t] that by simp
  have all: "ys ! j = 0xAA" if "j < 256" for j
    using that
  proof (induction j)
    case 0
    show ?case by (rule first)
  next
    case (Suc j)
    then have "j < 255" by simp
    then have "ys ! (1 + j) = ys ! j"
      by (rule cp)
    then show ?case
      using Suc by simp
  qed
  have ys_eq: "ys = replicate 256 0xAA"
    using len all by (intro nth_equalityI) simp_all
  have arith: "int 1 - int (bits_value (replicate 6 False) + OFFSET_TO_ADD ! 0) = int 1 - int 1"
    by (simp add: bits_value_replicate_False OFFSET_TO_ADD_def)
  have ne: "((7 :: nat) = 12) = False"
    by simp
  have bits: "stream ?d1 =
      True # unary_run 3 0 @ replicate 6 False @ unary_run 12 7 @ wide_extra @ replicate 24 True @ []"
    by (simp add: wide_copy_stream_def)
  have "decode_step ?d1 =
           (if (7 :: nat) = 12 then Inl AssertionError
            else case copy_loop (copy_length 0 7 wide_extra) 0 (out_pos ?d1)
                        (int (total_decoded_count ?d1)
                           - int (bits_value (replicate 6 False) + OFFSET_TO_ADD ! 0))
                        (out ?d1) of
                   Inl e \<Rightarrow> Inl e
                 | Inr out' \<Rightarrow>
                     Inr (Continue \<lparr>stream = replicate 24 True @ [], out = out',
                            out_pos = out_pos ?d1 + copy_length 0 7 wide_extra,
                            total_decoded_count = total_decoded_count ?d1
                               + copy_length 0 7 wide_extra\<rparr>))"
    by (rule decode_step_back_reference [OF bits]) (simp_all add: VALUE_BIT_COUNT_def wide_extra_def)
  then have s1: "decode_step ?d1 =
      Inr (Continue \<lparr>stream = replicate 24 True @ [], out = ys, out_pos = 1 + 255,
             total_decoded_count = 1 + 255\<rparr>)"
    by (simp only: wide_copy_length decoder.select_convs arith ne ys sum.case if_False)
  let ?d2 = "\<lparr>stream = replicate 24 True @ [], out = ys, out_pos = 1 + 255,
              total_decoded_count = 1 + 255\<rparr>"
  have run: "steps_to ?d0 ?d2"
    using s0 s1 steps_refl by (blast intro: steps_step)
  have loop: "decode_loop ?d2 = Inr (?d2\<lparr>stream := []\<rparr>)"
    by (rule decode_loop_sentinel) simp
  show ?thesis
    unfolding decompress_via_steps [OF wide_header run] loop
    using len by (simp add: ys_eq)
qed

lemma take_row_of_truncated:
  assumes "k < h"
  shows "take w (drop (k * w) (take (w * h) bytes)) = take w (drop (k * w) (bytes :: 'a list))"
proof -
  have "Suc k * w \<le> h * w"
    using assms by (intro mult_le_mono1) simp
  then have "w \<le> w * h - k * w"
    by (simp add: mult.commute)
  then show ?thesis
    by (simp add: drop_take min_def)
qed

lemma decompress_paletted_image_bytes_uncompressed:
  "decompress_paletted_image bytes_error (PyBytes bs) wh False extra_width = Inl (bytes_error bs)"
  by (simp add: decompress_paletted_image_def np_array_uint8_def Let_def)

text \<open>
  What \<open>decompress_paletted_image\<close> computes, for every payload: it fails as \<open>decompress\<close>
  or \<open>np.array\<close> does, keeps the first \<open>w * h\<close> of the bytes they return, with
  \<open>w = width + extra_width\<close>, raises ValueError if there are fewer, and returns \<open>h\<close> rows of
  \<open>w\<close> bytes in reversed order, row \<open>r\<close> being the bytes \<open>[(h - 1 - r) * w, (h - r) * w)\<close>.
  The rows are \<open>w\<close> bytes apart, whatever \<open>w\<close> is; when \<open>w\<close> is a multiple of 4 this is the
  image of the spec.
\<close>

lemma decompress_paletted_image_stride:
  "(\<forall>e. (if compressed
          then decompress (payload_items data) (((width + extra_width + 3) AND 0xfc) * height)
          else np_array_uint8 bytes_error data) = Inl e \<longrightarrow>
        decompress_paletted_image bytes_error data (width, height) compressed extra_width = Inl e)
   \<and> (\<forall>bytes. (if compressed
          then decompress (payload_items data) (((width + extra_width + 3) AND 0xfc) * height)
          else np_array_uint8 bytes_error data) = Inr bytes \<longrightarrow>
        (length bytes < (width + extra_width) * height \<longrightarrow>
           decompress_paletted_image bytes_error data (width, height) compressed extra_width
             = Inl ValueError)
        \<and> ((width + extra_width) * height \<le> length bytes \<longrightarrow>
           (\<exists>rows. decompress_paletted_image bytes_error data (width, height) compressed extra_width
                      = Inr rows
              \<and> length rows = height
              \<and> (\<forall>r<height. rows ! r =
                    take (width + extra_width)
                      (drop ((height - 1 - r) * (width + extra_width)) bytes))
              \<and> ((width + extra_width) mod 4 = 0 \<longrightarrow>
                    rows = spec_image_rows (width + extra_width) height bytes))))"
proof (intro conjI allI impI)
  fix e
  assume "(if compressed
           then decompress (payload_items data) (((width + extra_width + 3) AND 0xfc) * height)
           else np_array_uint8 bytes_error data) = Inl e"
  then show "decompress_paletted_image bytes_error data (width, height) compressed extra_width = Inl e"
    by (simp add: decompress_paletted_image_def Let_def)
next
  fix bytes :: "byte list"
  assume dec: "(if compressed
           then decompress (payload_items data) (((width + extra_width + 3) AND 0xfc) * height)
           else np_array_uint8 bytes_error data) = Inr bytes"
    and short: "length bytes < (width + extra_width) * height"
  have "reshape bytes height (width + extra_width) = Inl ValueError"
    using short by (simp add: reshape_def mult.commute)
  then show "decompress_paletted_image bytes_error data (width, height) compressed extra_width
               = Inl ValueError"
    using dec short by (simp add: decompress_paletted_image_def Let_def)
next
  fix bytes :: "byte list"
  let ?w = "width + extra_width"
  let ?rows0 = "map (\<lambda>r. take ?w (drop (r * ?w) (take (?w * height) bytes))) [0..<height]"
  assume dec: "(if compressed
           then decompress (payload_items data) (((width + extra_width + 3) AND 0xfc) * height)
           else np_array_uint8 bytes_error data) = Inr bytes"
    and enough: "?w * height \<le> length bytes"
  have trunc: "(if ?w * height < length bytes then take (?w * height) bytes else bytes)
                 = take (?w * height) bytes"
    using enough by simp
  have rs: "reshape (take (?w * height) bytes) height ?w = Inr ?rows0"
    using enough by (simp add: reshape_def mult.commute)
  have res: "decompress_paletted_image bytes_error data (width, height) compressed extra_width
               = Inr (rev ?rows0)"
    unfolding decompress_paletted_image_def
    by (simp only: Let_def fst_conv snd_conv dec sum.case trunc rs)
  have row: "rev ?rows0 ! r = take ?w (drop ((height - 1 - r) * ?w) bytes)" if r: "r < height" for r
  proof -
    have k: "height - 1 - r < height"
      using r by simp
    have "rev ?rows0 ! r = ?rows0 ! (height - 1 - r)"
      using r by (simp add: rev_nth)
    also have "\<dots> = take ?w (drop ((height - 1 - r) * ?w) (take (?w * height) bytes))"
      using k by simp
    also have "\<dots> = take ?w (drop ((height - 1 - r) * ?w) bytes)"
      using k by (rule take_row_of_truncated)
    finally show ?thesis .
  qed
  have spec: "rev ?rows0 = spec_image_rows ?w height bytes" if al: "?w mod 4 = 0"
  proof (rule nth_equalityI)
    show "length (rev ?rows0) = length (spec_image_rows ?w height bytes)"
      by (simp add: spec_image_rows_def)
  next
    fix r assume "r < length (rev ?rows0)"
    then have r: "r < height" by simp
    have "aligned_stride ?w = ?w"
      using al unfolding aligned_stride_def by presburger
    then show "rev ?rows0 ! r = spec_image_rows ?w height bytes ! r"
      using r row [OF r] by (simp add: spec_image_rows_def)
  qed
  show "\<exists>rows. decompress_paletted_image bytes_error data (width, height) compressed extra_width
                   = Inr rows
              \<and> length rows = height
              \<and> (\<forall>r<height. rows ! r = take ?w (drop ((height - 1 - r) * ?w) bytes))
              \<and> (?w mod 4 = 0 \<longrightarrow> rows = spec_image_rows ?w height bytes)"
    using res row spec by (intro exI [of _ "rev ?rows0"]) simp
qed

text \<open>
  C2: the code does not do what the claim says. For two rows of three pixels stored as two
  rows of four bytes the claim gives the rows (4, 5, 6) and (1, 2, 3); the code, given the
  payload as a memoryview, cuts the rows three bytes apart and returns (0, 4, 5) and
  (1, 2, 3), and given the same payload as a \<open>bytes\<close> object on the uncompressed path it
  raises. For one row of 256 pixels the bound of the claim, \<open>((w + 3) & ~3) * h = 256\<close>, lets
  \<open>decompress\<close> return the 256 pixels of \<open>wide_data\<close>; the code passes the bound
  \<open>((w + 3) & 0xfc) * h = 0\<close> and the first literal raises IndexError.
\<close>

theorem decompress_paletted_image_diverges:
  "spec_image_rows 3 2 example_raster = [[4, 5, 6], [1, 2, 3]]
   \<and> decompress_paletted_image (\<lambda>bs. ValueError) (PyMemoryview (mv_of_bytes example_raster))
        (3, 2) False 0 = Inr [[0, 4, 5], [1, 2, 3]]
   \<and> decompress_paletted_image (\<lambda>bs. ValueError) (PyBytes example_raster) (3, 2) False 0
        = Inl ValueError
   \<and> decompress wide_data (aligned_stride (256 + 0) * 1) = Inr (replicate 256 0xAA)
   \<and> ((256 + 0 + 3) AND 0xfc) * 1 = (0 :: nat)
   \<and> decompress_paletted_image (\<lambda>bs. ValueError) (PyMemoryview (mv_of_bytes wide_data))
        (256, 1) True 0 = Inl IndexError"
proof -
  have a: "spec_image_rows 3 2 example_raster = [[4, 5, 6], [1, 2, 3]]"
    by (simp add: spec_image_rows_def aligned_stride_def example_raster_def upt_conv_Cons)
  have b: "decompress_paletted_image (\<lambda>bs. ValueError) (PyMemoryview (mv_of_bytes example_raster))
        (3, 2) False 0 = Inr [[0, 4, 5], [1, 2, 3]]"
    by (simp add: decompress_paletted_image_def np_array_uint8_def mv_tobytes_of_bytes
        example_raster_def reshape_def Let_def upt_conv_Cons)
  have c: "decompress_paletted_image (\<lambda>bs. ValueError) (PyBytes example_raster) (3, 2) False 0
        = Inl ValueError"
    by (rule decompress_paletted_image_bytes_uncompressed)
  have d: "decompress wide_data (aligned_stride (256 + 0) * 1) = Inr (replicate 256 0xAA)"
    using wide_full by (simp add: aligned_stride_def)
  have e: "((256 + 0 + 3) AND 0xfc) * 1 = (0 :: nat)"
    by simp
  have f: "decompress_paletted_image (\<lambda>bs. ValueError) (PyMemoryview (mv_of_bytes wide_data))
        (256, 1) True 0 = Inl IndexError"
    using e by (simp add: decompress_paletted_image_def payload_items_def mv_tobytes_of_bytes
        Let_def wide_no_room)
  from a b c d e f show ?thesis by simp
qed

section \<open>Container records\<close>

lemmas buffer_eval = buffer_of_bytes_def mv_of_bytes_def read_def read_bytes_def read_integer_def
  read_ushort_def read_ulong_def read_string_def skip_def mv_slice_def mv_tobytes_def
  mv_getitem_def int_from_bytes_def locator_def read_list_def read_count_def
  read_list_inner_def Let_def

lemma read_bytes_at_cursor:
  assumes "mv_tobytes (mv b) = pre @ bs @ rest" "length pre = pos b" "length bs = n"
  shows "read_bytes n b = (mv_slice (mv b) (pos b) (pos b + n), b\<lparr>pos := pos b + n\<rparr>)"
    and "mv_tobytes (mv_slice (mv b) (pos b) (pos b + n)) = bs"
proof -
  show "read_bytes n b = (mv_slice (mv b) (pos b) (pos b + n), b\<lparr>pos := pos b + n\<rparr>)"
    by (simp add: read_bytes_def)
  have "length (pre @ bs @ rest) \<le> mv_len (mv b)"
    using length_mv_tobytes_le [of "mv b"] assms(1) by simp
  then have le: "pos b + n \<le> mv_len (mv b)"
    using assms(2,3) by simp
  have "mv_tobytes (mv_slice (mv b) (pos b) (pos b + n)) = take n (drop (pos b) (pre @ bs @ rest))"
    using le by (simp add: mv_tobytes_slice assms(1) min_def)
  also have "\<dots> = bs"
    using assms(2,3) by simp
  finally show "mv_tobytes (mv_slice (mv b) (pos b) (pos b + n)) = bs" .
qed

lemma map2_map_same: "map2 f (map g xs) xs = map (\<lambda>x. f (g x) x) xs"
  by (induction xs) simp_all

lemma replicate_4: "replicate 4 x = [x, x, x, x]"
  by (simp add: eval_nat_numeral)

lemma palette_row_update:
  "length row = 4 \<Longrightarrow>
   (replicate (length row) c)[0 := row ! 2, 1 := row ! 1, 2 := row ! 0] = [row ! 2, row ! 1, row ! 0, c]"
  by (simp add: replicate_4)

lemma palette_columns:
  assumes "\<forall>row \<in> set src. length row = 4"
  shows "map2 (\<lambda>dst row. dst[2 := row ! 0])
           (map2 (\<lambda>dst row. dst[1 := row ! 1])
              (map2 (\<lambda>dst row. dst[0 := row ! 2])
                 (map (\<lambda>row. replicate (length row) c) src) src) src) src
         = map (\<lambda>row. [row ! 2, row ! 1, row ! 0, c]) src"
proof -
  have "map2 (\<lambda>dst row. dst[2 := row ! 0])
           (map2 (\<lambda>dst row. dst[1 := row ! 1])
              (map2 (\<lambda>dst row. dst[0 := row ! 2])
                 (map (\<lambda>row. replicate (length row) c) src) src) src) src
        = map (\<lambda>row. (replicate (length row) c)[0 := row ! 2, 1 := row ! 1, 2 := row ! 0]) src"
    by (simp only: map2_map_same)
  also have "\<dots> = map (\<lambda>row. [row ! 2, row ! 1, row ! 0, c]) src"
  proof (rule map_cong [OF refl])
    fix row assume "row \<in> set src"
    then have "length row = 4"
      using assms by simp
    then show "(replicate (length row) c)[0 := row ! 2, 1 := row ! 1, 2 := row ! 0]
                 = [row ! 2, row ! 1, row ! 0, c]"
      by (rule palette_row_update)
  qed
  finally show ?thesis .
qed

lemma CharacterInfo_init_palette:
  assumes "CharacterInfo_init buf = Inr (ci, buf')"
  shows "\<exists>b0 b1. read_palette (transparency_index ci) b0 = Inr (palette ci, b1)"
  using assms
  by (auto simp: CharacterInfo_init_def Let_def split: prod.splits sum.splits if_splits) blast

text \<open>
  C7, as stated, fails: the row at the transparency index does not keep its colour
  components. With the entries (1, 2, 3, 9) and (4, 5, 6, 9) and the transparency index
  0, row 0 of the palette is (0, 0, 0, 0), not (3, 2, 1, 0).
\<close>

theorem read_palette_transparent_row_counterexample:
  "read_palette 0 example_palette_block
     = Inr ([[0, 0, 0, 0], [6, 5, 4, 255]], example_palette_block\<lparr>pos := 12\<rparr>)"
  by (simp add: example_palette_block_def read_palette_def reshape_def np_index_def buffer_eval
      upt_conv_Cons replicate_4)

text \<open>
  C7, amended: the palette block of \<open>CharacterInfo.__init__\<close>, reading the count \<open>n\<close> and
  \<open>n\<close> entries of four bytes at the cursor, with a transparency index that is a valid row
  index, gives \<open>n\<close> rows: every row other than the one at the transparency index holds the
  first three bytes of its source entry in reversed order (BGR to RGB) and the alpha value
  255; the row at the transparency index is 0 in all four components.
\<close>

theorem read_palette_rows:
  assumes cursor: "mv_tobytes (mv buf) = pre @ n4 @ raw @ rest"
    and pre: "length pre = pos buf" and n4: "length n4 = 4"
    and raw: "length raw = from_bytes_little n4 * 4"
    and tr0: "0 \<le> tr" and tr1: "tr < int (from_bytes_little n4)"
  shows "\<exists>pal. read_palette tr buf = Inr (pal, buf\<lparr>pos := pos buf + 4 + length raw\<rparr>)
           \<and> length pal = from_bytes_little n4
           \<and> (\<forall>i<from_bytes_little n4.
                 pal ! i = (if i = nat tr then [0, 0, 0, 0]
                            else [raw ! (4 * i + 2), raw ! (4 * i + 1), raw ! (4 * i), 255]))"
proof -
  let ?n = "from_bytes_little n4"
  let ?b1 = "buf\<lparr>pos := pos buf + 4\<rparr>"
  let ?src = "map (\<lambda>r. take 4 (drop (r * 4) raw)) [0..<?n]"
  let ?p3 = "map (\<lambda>row. [row ! 2, row ! 1, row ! 0, 255 :: byte]) ?src"
  have r1: "read_ulong buf = (int ?n, ?b1)"
    using cursor pre n4 by (rule read_ulong_at_cursor)
  have c1: "mv_tobytes (mv ?b1) = (pre @ n4) @ raw @ rest"
    using cursor by simp
  have p1: "length (pre @ n4) = pos ?b1"
    using pre n4 by simp
  note rb = read_bytes_at_cursor [OF c1 p1 raw]
  have rb1: "read_bytes (?n * 4) ?b1
               = (mv_slice (mv buf) (pos buf + 4) (pos buf + 4 + ?n * 4), buf\<lparr>pos := pos buf + 4 + ?n * 4\<rparr>)"
    using rb(1) by (simp add: add.assoc)
  have rb2: "mv_tobytes (mv_slice (mv buf) (pos buf + 4) (pos buf + 4 + ?n * 4)) = raw"
    using rb(2) by (simp add: add.assoc)
  have rs: "reshape raw ?n 4 = Inr ?src"
    using raw by (simp add: reshape_def)
  have rows4: "\<forall>row \<in> set ?src. length row = 4"
  proof
    fix row assume "row \<in> set ?src"
    then obtain r where r: "r < ?n" and row: "row = take 4 (drop (r * 4) raw)"
      by auto
    have "r * 4 + 4 \<le> length raw"
      using r raw by simp
    then show "length row = 4"
      by (simp add: row)
  qed
  have idx: "np_index (length ?p3) tr = Inr (nat tr)"
    using tr0 tr1 by (simp add: np_index_def)
  have rp: "read_palette tr buf = Inr (?p3[nat tr := replicate 4 0], buf\<lparr>pos := pos buf + 4 + ?n * 4\<rparr>)"
    unfolding read_palette_def r1
    by (simp only: prod.case Let_def nat_int rb1 rb2 rs sum.case palette_columns [OF rows4] idx)
  have rows: "(?p3[nat tr := replicate 4 0]) ! i
                = (if i = nat tr then [0, 0, 0, 0]
                   else [raw ! (4 * i + 2), raw ! (4 * i + 1), raw ! (4 * i), 255])"
    if i: "i < ?n" for i
  proof (cases "i = nat tr")
    case True
    then show ?thesis using i by (simp add: replicate_4)
  next
    case False
    have "i * 4 + 4 \<le> length raw"
      using i raw by simp
    then show ?thesis
      using False i by (simp add: mult.commute)
  qed
  show ?thesis
    using rp rows raw by (intro exI [of _ "?p3[nat tr := replicate 4 0]"]) simp
qed

theorem read_palette_rows_witness:
  "\<exists>pal. read_palette 1 example_palette_block = Inr (pal, example_palette_block\<lparr>pos := 12\<rparr>)
      \<and> length pal = 2 \<and> pal ! 0 = [3, 2, 1, 255] \<and> pal ! 1 = [0, 0, 0, 0]"
proof -
  have cursor: "mv_tobytes (mv example_palette_block) = [] @ [2, 0, 0, 0] @ [1, 2, 3, 9, 4, 5, 6, 9] @ []"
    by (simp add: example_palette_block_def buffer_of_bytes_def mv_tobytes_of_bytes)
  have pre: "length ([] :: byte list) = pos example_palette_block"
    by (simp add: example_palette_block_def buffer_of_bytes_def)
  have n4: "length [2, 0, 0, 0 :: byte] = 4"
    by simp
  have n: "from_bytes_little [2, 0, 0, 0] = 2"
    by simp
  have raw: "length [1, 2, 3, 9, 4, 5, 6, 9 :: byte] = from_bytes_little [2, 0, 0, 0] * 4"
    by simp
  have tr: "(0 :: int) \<le> 1" "(1 :: int) < int (from_bytes_little [2, 0, 0, 0])"
    by simp_all
  from read_palette_rows [OF cursor pre n4 raw tr]
  obtain pal where rp: "read_palette 1 example_palette_block
        = Inr (pal, example_palette_block\<lparr>pos := pos example_palette_block + 4
                       + length [1, 2, 3, 9, 4, 5, 6, 9 :: byte]\<rparr>)"
    and len: "length pal = from_bytes_little [2, 0, 0, 0]"
    and rows: "\<forall>i<from_bytes_little [2, 0, 0, 0].
                 pal ! i = (if i = nat 1 then [0, 0, 0, 0]
                            else [[1, 2, 3, 9, 4, 5, 6, 9] ! (4 * i + 2),
                                  [1, 2, 3, 9, 4, 5, 6, 9] ! (4 * i + 1),
                                  [1, 2, 3, 9, 4, 5, 6, 9] ! (4 * i), 255])"
    by blast
  have p0: "pal ! 0 = [3, 2, 1, 255]"
    using rows [rule_format, of 0] by (simp add: n)
  have p1: "pal ! 1 = [0, 0, 0, 0]"
    using rows [rule_format, of 1] by (simp add: n)
  have "pos example_palette_block + 4 + length [1, 2, 3, 9, 4, 5, 6, 9 :: byte] = 12"
    by (simp add: example_palette_block_def buffer_of_bytes_def)
  with rp len p0 p1 show ?thesis
    by (simp add: n)
qed

lemma example_anim_record_eval:
  "anim_info ascii_upper example_anim_record =
     Inr ((\<lparr>name = [97], transition_type = 2, return_anim_name = [], frames = []\<rparr>,
           [([65], [65])]),
          example_anim_record\<lparr>pos := 16\<rparr>)"
  by (simp add: example_anim_record_def anim_info_def AnimInfo_init_def ascii_upper_def buffer_eval)

lemma upper_anim_record_eval:
  "anim_info ascii_upper upper_anim_record =
     Inr ((\<lparr>name = [65], transition_type = 2, return_anim_name = [], frames = []\<rparr>, []),
          upper_anim_record\<lparr>pos := 16\<rparr>)"
  by (simp add: upper_anim_record_def anim_info_def AnimInfo_init_def ascii_upper_def buffer_eval)

lemma AnimInfo_init_name:
  "AnimInfo_init sub = Inr (info, sub') \<Longrightarrow> name info = fst (read_string sub)"
  by (auto simp: AnimInfo_init_def Let_def split: prod.splits sum.splits)

text \<open>
  C9, as stated, fails: the comparison is not case-insensitive. For the outer name "A" and
  the inner name "a", which differ only in letter case, \<open>anim_info\<close> logs the warning.
\<close>

theorem anim_info_case_counterexample:
  "ascii_upper [65] = ascii_upper [97]
   \<and> anim_info ascii_upper example_anim_record =
       Inr ((\<lparr>name = [97], transition_type = 2, return_anim_name = [], frames = []\<rparr>,
             [([65], [65])]),
            example_anim_record\<lparr>pos := 16\<rparr>)
   \<and> fst (read_string example_anim_record) = [65]"
  using example_anim_record_eval
  by (simp add: ascii_upper_def example_anim_record_def buffer_eval)

text \<open>
  C9, amended: \<open>anim_info\<close> compares the upper-cased outer name with the internally decoded
  name as it is. Whenever it returns, the \<open>AnimInfo\<close> is the one decoded from the located
  sub-view and carries the inner name, and a warning is logged exactly when
  \<open>outer.upper()\<close> differs from the inner name; it raises only when \<open>locator\<close> or
  \<open>AnimInfo.__init__\<close> raises, so a mismatch is never fatal.
\<close>

theorem anim_info_inner_name_wins:
  "(\<forall>info w b'. anim_info upper buf = Inr ((info, w), b') \<longrightarrow>
      (\<exists>sub sub'. locator True (snd (read_string buf)) = Inr (sub, b')
         \<and> AnimInfo_init sub = Inr (info, sub')
         \<and> name info = fst (read_string sub)
         \<and> w = (if upper (fst (read_string buf)) = name info then []
                else [(fst (read_string buf), upper (fst (read_string buf)))])))
   \<and> (\<forall>e. anim_info upper buf = Inl e \<longleftrightarrow>
          (locator True (snd (read_string buf)) = Inl e
           \<or> (\<exists>sub b2. locator True (snd (read_string buf)) = Inr (sub, b2)
                 \<and> AnimInfo_init sub = Inl e)))"
proof (intro conjI allI impI)
  fix info w b'
  assume ok: "anim_info upper buf = Inr ((info, w), b')"
  obtain outer b1 where rs: "read_string buf = (outer, b1)"
    by (cases "read_string buf")
  from ok rs obtain sub where loc: "locator True b1 = Inr (sub, b')"
    by (auto simp: anim_info_def Let_def split: sum.splits prod.splits)
  from ok rs loc obtain sub' where ai: "AnimInfo_init sub = Inr (info, sub')"
    by (auto simp: anim_info_def Let_def split: sum.splits prod.splits)
  have w: "w = (if upper outer = name info then [] else [(outer, upper outer)])"
    using ok rs loc ai by (auto simp: anim_info_def Let_def)
  have "name info = fst (read_string sub)"
    using ai by (rule AnimInfo_init_name)
  with rs loc ai w
  show "\<exists>sub sub'. locator True (snd (read_string buf)) = Inr (sub, b')
         \<and> AnimInfo_init sub = Inr (info, sub')
         \<and> name info = fst (read_string sub)
         \<and> w = (if upper (fst (read_string buf)) = name info then []
                else [(fst (read_string buf), upper (fst (read_string buf)))])"
    by auto
next
  fix e
  show "anim_info upper buf = Inl e \<longleftrightarrow>
          (locator True (snd (read_string buf)) = Inl e
           \<or> (\<exists>sub b2. locator True (snd (read_string buf)) = Inr (sub, b2)
                 \<and> AnimInfo_init sub = Inl e))"
    by (auto simp: anim_info_def Let_def split: sum.splits prod.splits)
qed

theorem anim_info_inner_name_wins_witness:
  "\<exists>sub sub'. locator True (snd (read_string upper_anim_record)) = Inr (sub, upper_anim_record\<lparr>pos := 16\<rparr>)
      \<and> AnimInfo_init sub =
          Inr (\<lparr>name = [65], transition_type = 2, return_anim_name = [], frames = []\<rparr>, sub')
      \<and> fst (read_string sub) = [65]
      \<and> ascii_upper (fst (read_string upper_anim_record)) = [65]"
  using anim_info_inner_name_wins [of ascii_upper upper_anim_record, THEN conjunct1, rule_format,
      OF upper_anim_record_eval]
  by (auto split: if_splits)

section \<open>Branch selection\<close>

lemma cumulative_prob_Cons:
  "cumulative_prob (br # brs) (Suc i) = prob_percent br + cumulative_prob brs i"
  by (simp add: cumulative_prob_def)

lemma pick_loop_None:
  "(\<forall>i<length brs. \<not> v < s + cumulative_prob brs (Suc i)) \<Longrightarrow> pick_loop v s brs = None"
proof (induction brs arbitrary: s)
  case Nil
  then show ?case by simp
next
  case (Cons br brs)
  from Cons.prems have first: "\<not> v < s + prob_percent br"
    by (auto simp: cumulative_prob_def dest: spec [of _ 0])
  have "\<forall>i<length brs. \<not> v < (s + prob_percent br) + cumulative_prob brs (Suc i)"
  proof (intro allI impI)
    fix i assume "i < length brs"
    then have "\<not> v < s + cumulative_prob (br # brs) (Suc (Suc i))"
      using Cons.prems by auto
    then show "\<not> v < (s + prob_percent br) + cumulative_prob brs (Suc i)"
      by (simp add: cumulative_prob_Cons add.assoc)
  qed
  then have "pick_loop v (s + prob_percent br) brs = None"
    by (rule Cons.IH)
  with first show ?case by (simp add: Let_def)
qed

lemma pick_loop_Some:
  "i < length brs \<Longrightarrow> v < s + cumulative_prob brs (Suc i) \<Longrightarrow>
   (\<forall>j<i. \<not> v < s + cumulative_prob brs (Suc j)) \<Longrightarrow>
   pick_loop v s brs = Some (jump_target_idx (brs ! i))"
proof (induction brs arbitrary: s i)
  case Nil
  then show ?case by simp
next
  case (Cons br brs)
  show ?case
  proof (cases i)
    case 0
    with Cons.prems show ?thesis by (simp add: cumulative_prob_def Let_def)
  next
    case (Suc k)
    from Cons.prems(3) Suc have first: "\<not> v < s + prob_percent br"
      by (auto simp: cumulative_prob_def dest: spec [of _ 0])
    have k: "k < length brs" using Cons.prems(1) Suc by simp
    have hit: "v < (s + prob_percent br) + cumulative_prob brs (Suc k)"
      using Cons.prems(2) Suc by (simp add: cumulative_prob_Cons add.assoc)
    have miss: "\<forall>j<k. \<not> v < (s + prob_percent br) + cumulative_prob brs (Suc j)"
    proof (intro allI impI)
      fix j assume "j < k"
      then have "Suc j < i" using Suc by simp
      then have "\<not> v < s + cumulative_prob (br # brs) (Suc (Suc j))"
        using Cons.prems(3) by blast
      then show "\<not> v < (s + prob_percent br) + cumulative_prob brs (Suc j)"
        by (simp add: cumulative_prob_Cons add.assoc)
    qed
    have "pick_loop v (s + prob_percent br) brs = Some (jump_target_idx (brs ! k))"
      using k hit miss by (rule Cons.IH)
    with first Suc show ?thesis by (simp add: Let_def)
  qed
qed

text \<open>
  C6: for every frame and every draw \<open>v\<close>, \<open>pick_jump_destination\<close> returns the jump target of
  the first branch, in declared order, whose cumulative probability exceeds \<open>v\<close>, and
  \<open>None\<close> (sequential advance) if no cumulative probability exceeds \<open>v\<close>. With the branches
  (3, 30) and (7, 40), a draw of 10 gives 3, a draw of 35 gives 7 and a draw of 75 gives
  \<open>None\<close>.
\<close>

theorem pick_jump_destination_first_exceeding:
  "(\<forall>i<length (branch_infos fi).
      v < cumulative_prob (branch_infos fi) (Suc i) \<and>
      (\<forall>j<i. \<not> v < cumulative_prob (branch_infos fi) (Suc j)) \<longrightarrow>
      pick_jump_destination fi v = Some (jump_target_idx (branch_infos fi ! i)))
   \<and> ((\<forall>i<length (branch_infos fi). \<not> v < cumulative_prob (branch_infos fi) (Suc i)) \<longrightarrow>
      pick_jump_destination fi v = None)
   \<and> pick_jump_destination (fi\<lparr>branch_infos := example_branches\<rparr>) 10 = Some 3
   \<and> pick_jump_destination (fi\<lparr>branch_infos := example_branches\<rparr>) 35 = Some 7
   \<and> pick_jump_destination (fi\<lparr>branch_infos := example_branches\<rparr>) 75 = None"
proof (intro conjI allI impI)
  fix i
  assume "i < length (branch_infos fi)"
    and "v < cumulative_prob (branch_infos fi) (Suc i) \<and>
         (\<forall>j<i. \<not> v < cumulative_prob (branch_infos fi) (Suc j))"
  then show "pick_jump_destination fi v = Some (jump_target_idx (branch_infos fi ! i))"
    using pick_loop_Some [of i "branch_infos fi" v 0]
    by (simp add: pick_jump_destination_def)
next
  assume "\<forall>i<length (branch_infos fi). \<not> v < cumulative_prob (branch_infos fi) (Suc i)"
  then show "pick_jump_destination fi v = None"
    using pick_loop_None [of "branch_infos fi" v 0]
    by (simp add: pick_jump_destination_def)
qed (simp_all add: pick_jump_destination_def example_branches_def)

theorem pick_jump_destination_first_exceeding_witness:
  "pick_jump_destination example_frame 35 = Some 7
   \<and> pick_jump_destination example_frame 75 = None"
proof -
  have brs: "branch_infos example_frame = example_branches"
    by (simp add: example_frame_def)
  have c1: "cumulative_prob example_branches (Suc 0) = 30"
    by (simp add: cumulative_prob_def example_branches_def)
  have c2: "cumulative_prob example_branches (Suc (Suc 0)) = 70"
    by (simp add: cumulative_prob_def example_branches_def)
  have len: "length example_branches = Suc (Suc 0)"
    by (simp add: example_branches_def)
  note main = pick_jump_destination_first_exceeding [of example_frame]
  have "pick_jump_destination example_frame 35 = Some (jump_target_idx (example_branches ! 1))"
    using main [of 35, THEN conjunct1, rule_format, of 1] by (simp add: brs c1 c2 len)
  moreover have "pick_jump_destination example_frame 75 = None"
    using main [of 75, THEN conjunct2, THEN conjunct1] by (simp add: brs c1 c2 len less_Suc_eq)
  ultimately show ?thesis by (simp add: example_branches_def)
qed


end
